theory Spec2Isabelle
  imports Main
begin

section \<open>JavaScript objects as property lists\<close>

text \<open>
  A plain object (\<^verbatim>\<open>Record<string, T>\<close>, written as an object literal: its prototype
  is \<^verbatim>\<open>Object.prototype\<close>) is the list of its own properties in enumeration order, the
  order in which \<^verbatim>\<open>for (key in obj)\<close> visits them.  \<open>get_prop\<close> looks a key up among
  the own properties, \<open>set_prop\<close> is the assignment \<^verbatim>\<open>obj[key] = v\<close> for a key other than
  \<^verbatim>\<open>__proto__\<close>: it overwrites an existing property in place and appends a new one.
  (JavaScript enumerates keys that look like array indices before the others; nothing
  below depends on the order, only on which keys there are and what they hold.)
\<close>

type_synonym 'a obj = "(string \<times> 'a) list"

definition keys :: "'a obj \<Rightarrow> string list" where
  "keys obj = map fst obj"

definition get_prop :: "'a obj \<Rightarrow> string \<Rightarrow> 'a option" where
  "get_prop obj key = map_of obj key"

fun set_prop :: "string \<Rightarrow> 'a \<Rightarrow> 'a obj \<Rightarrow> 'a obj" where
  "set_prop key v [] = [(key, v)]"
| "set_prop key v (p # ps) = (if fst p = key then (key, v) # ps else p # set_prop key v ps)"

lemma get_prop_in: "get_prop a k = Some v \<Longrightarrow> v \<in> snd ` set a"
  by (auto simp: get_prop_def dest!: map_of_SomeD intro: rev_image_eqI)

section \<open>Reads through the prototype chain\<close>

text \<open>
  The read \<^verbatim>\<open>obj[key]\<close> of a key that is not an own property of \<open>obj\<close> goes on to the
  prototype.  For a plain object that is \<^verbatim>\<open>Object.prototype\<close>, which defines the
  names of \<open>Object_prototype\<close>: the read yields the member defined there (a built-in
  function; for \<^verbatim>\<open>__proto__\<close>, the prototype object itself), and \<^verbatim>\<open>undefined\<close> only
  for every other key.  None of these members is enumerable, so \<^verbatim>\<open>for ... in\<close> does not
  visit them.

  \<open>js_get\<close> is that read: \<open>Some (Own v)\<close> for an own property holding \<open>v\<close>,
  \<open>Some (Inherited key)\<close> for the member of \<^verbatim>\<open>Object.prototype\<close> of that name, \<open>None\<close>
  for \<^verbatim>\<open>undefined\<close>.
\<close>

definition Object_prototype :: "string list" where
  "Object_prototype =
     [''constructor'', ''__defineGetter__'', ''__defineSetter__'', ''hasOwnProperty'',
      ''__lookupGetter__'', ''__lookupSetter__'', ''isPrototypeOf'', ''propertyIsEnumerable'',
      ''toString'', ''valueOf'', ''__proto__'', ''toLocaleString'']"

datatype 'a held = Own 'a | Inherited string

definition js_get :: "'a obj \<Rightarrow> string \<Rightarrow> 'a held option" where
  "js_get obj key =
     (case get_prop obj key of
        Some v \<Rightarrow> Some (Own v)
      | None \<Rightarrow> if key \<in> set Object_prototype then Some (Inherited key) else None)"

text \<open>
  \<^verbatim>\<open>x == null\<close> for the result \<open>x\<close> of a read: true for \<^verbatim>\<open>undefined\<close>, and for an own
  value that is one of the type's null values (\<open>nullish\<close>); false for a member of
  \<^verbatim>\<open>Object.prototype\<close>.
\<close>

definition is_null :: "('a \<Rightarrow> bool) \<Rightarrow> 'a held option \<Rightarrow> bool" where
  "is_null nullish x =
     (case x of None \<Rightarrow> True | Some (Own v) \<Rightarrow> nullish v | Some (Inherited name) \<Rightarrow> False)"

text \<open>
  Two things a merge can do are left out of the model, and a call that does one of them
  has the outcome \<open>Beyond\<close>: the assignment \<^verbatim>\<open>result['__proto__'] = v\<close>, which runs the
  setter that \<^verbatim>\<open>Object.prototype\<close> defines instead of adding a property; and the
  key-by-key merge of an object with a member of \<^verbatim>\<open>Object.prototype\<close>.  Every other
  call has the outcome \<open>Result\<close> of its return value.
\<close>

datatype 'a outcome = Result 'a | Beyond

definition js_set :: "string \<Rightarrow> 'a \<Rightarrow> 'a obj \<Rightarrow> 'a obj outcome" where
  "js_set key v result = (if key = ''__proto__'' then Beyond else Result (set_prop key v result))"

section \<open>handlers.ts: mergeMaps\<close>

text \<open>
  \<^verbatim>\<open>
  function mergeMaps<T>(a, b, mergeItems) {
      let result = {}
      for (let key in a) {
          if (b[key] == null) { result[key] = a[key] }
          else { result[key] = mergeItems(a[key], b[key]) }
      }
      for (let key in b) {
          if (a?.[key] == null) { result[key] = b[key] }
      }
      return result
  }
  \<close>
  The first parameter of the model says which values of \<open>T\<close> are \<^verbatim>\<open>== null\<close>; the
  source has it in the dynamic type of the values.  In both loops \<open>key\<close> is an own key
  of the object iterated, so the read of that object finds the own value; the read of
  the other object is \<open>js_get\<close>, and what it finds is passed to \<open>mergeItems\<close> as it is.
  \<open>mergeMaps_a\<close> and \<open>mergeMaps_b\<close> are the bodies of the two loops.
\<close>

definition mergeMaps_a ::
  "('a \<Rightarrow> bool) \<Rightarrow> 'a obj \<Rightarrow> 'a obj \<Rightarrow> ('a \<Rightarrow> 'a held \<Rightarrow> 'a outcome) \<Rightarrow> string
     \<Rightarrow> 'a obj outcome \<Rightarrow> 'a obj outcome" where
  "mergeMaps_a nullish a b mergeItems key acc =
     (case acc of
        Beyond \<Rightarrow> Beyond
      | Result result \<Rightarrow>
          (case get_prop a key of
             None \<Rightarrow> Result result
           | Some va \<Rightarrow>
               (case js_get b key of
                  None \<Rightarrow> js_set key va result
                | Some vb \<Rightarrow>
                    if is_null nullish (Some vb) then js_set key va result
                    else (case mergeItems va vb of
                            Beyond \<Rightarrow> Beyond
                          | Result v \<Rightarrow> js_set key v result))))"

definition mergeMaps_b ::
  "('a \<Rightarrow> bool) \<Rightarrow> 'a obj \<Rightarrow> 'a obj \<Rightarrow> string \<Rightarrow> 'a obj outcome \<Rightarrow> 'a obj outcome" where
  "mergeMaps_b nullish a b key acc =
     (case acc of
        Beyond \<Rightarrow> Beyond
      | Result result \<Rightarrow>
          (case get_prop b key of
             None \<Rightarrow> Result result
           | Some vb \<Rightarrow>
               if is_null nullish (js_get a key) then js_set key vb result
               else Result result))"

definition mergeMaps ::
  "('a \<Rightarrow> bool) \<Rightarrow> 'a obj \<Rightarrow> 'a obj \<Rightarrow> ('a \<Rightarrow> 'a held \<Rightarrow> 'a outcome) \<Rightarrow> 'a obj outcome" where
  "mergeMaps nullish a b mergeItems =
     fold (mergeMaps_b nullish a b) (keys b)
       (fold (mergeMaps_a nullish a b mergeItems) (keys a) (Result []))"

lemma mergeMaps_cong [fundef_cong]:
  assumes "nullish = nullish'" "a = a'" "b = b'"
    and "\<And>x h. x \<in> snd ` set a' \<Longrightarrow> f x h = g x h"
  shows "mergeMaps nullish a b f = mergeMaps nullish' a' b' g"
proof -
  have "mergeMaps_a nullish' a' b' f key acc = mergeMaps_a nullish' a' b' g key acc" for key acc
  proof (cases "get_prop a' key")
    case None
    then show ?thesis by (simp add: mergeMaps_a_def split: outcome.splits)
  next
    case (Some va)
    then have "f va h = g va h" for h by (intro assms(4) get_prop_in)
    with Some show ?thesis
      by (simp add: mergeMaps_a_def split: outcome.splits option.splits if_splits)
  qed
  then have "mergeMaps_a nullish' a' b' f = mergeMaps_a nullish' a' b' g" by (intro ext)
  with assms(1-3) show ?thesis by (simp add: mergeMaps_def)
qed

section \<open>handlers.ts: mergeContextRequests\<close>

text \<open>
  Modelled from the spec: the type \<^verbatim>\<open>ContextRequest\<close> of \<^verbatim>\<open>../interfaces/dataSelection\<close>,
  a selection tree, in which a value is "select everything beneath this key"
  (\<^verbatim>\<open>true\<close>), absent, or a mapping from sub-key to selection tree.  The merge takes its
  arguments as \<^verbatim>\<open>any\<close> and tests them for truthiness, so the values here are those
  of a tree and \<^verbatim>\<open>false\<close>: a boolean, a nested object, or \<^verbatim>\<open>undefined\<close> (what a
  missing property reads as, and what a property written without a value holds).
  \<open>JNative name\<close> is the member \<open>name\<close> of \<^verbatim>\<open>Object.prototype\<close>, which no tree holds but
  a read can yield.
\<close>

datatype jsval = JUndefined | JBool bool | JObj "(string \<times> jsval) list" | JNative string

text \<open>
  \<open>truthy\<close> is JavaScript's conversion to a boolean; \<open>held_val\<close> is the value a read
  found.
\<close>

fun truthy :: "jsval \<Rightarrow> bool" where
  "truthy JUndefined = False"
| "truthy (JBool b) = b"
| "truthy (JObj ps) = True"
| "truthy (JNative name) = True"

definition undefined_val :: "jsval \<Rightarrow> bool" where
  "undefined_val v = (v = JUndefined)"

fun held_val :: "jsval held \<Rightarrow> jsval" where
  "held_val (Own v) = v"
| "held_val (Inherited name) = JNative name"

lemma size_own_pair:
  "(k, x) \<in> set a \<Longrightarrow> size x < Suc (size_list (size_prod (\<lambda>_. 0) size) a)"
  for x :: jsval and k :: string
  by (induction a) auto

text \<open>
  \<^verbatim>\<open>
  function merge(fa: any, fb: any): any {
      if (fa === true || fb === true) return true
      if (!fa) return fb
      if (!fb) return fa
      return mergeMaps(fa, fb, merge)
  }
  \<close>
  The last line is reached with two truthy values other than \<^verbatim>\<open>true\<close>: two objects,
  or an object and a member of \<^verbatim>\<open>Object.prototype\<close>.
\<close>

function merge :: "jsval \<Rightarrow> jsval \<Rightarrow> jsval outcome" where
  "merge fa fb =
     (if fa = JBool True \<or> fb = JBool True then Result (JBool True)
      else if \<not> truthy fa then Result fb
      else if \<not> truthy fb then Result fa
      else (case (fa, fb) of
              (JObj a, JObj b) \<Rightarrow>
                map_outcome JObj (mergeMaps undefined_val a b (\<lambda>x h. merge x (held_val h)))
            | _ \<Rightarrow> Beyond))"
  by pat_completeness auto
termination
  by (relation "measure (\<lambda>(fa, fb). size fa)") (auto dest: size_own_pair)

declare merge.simps [simp del]

text \<open>
  \<^verbatim>\<open>
  function mergeContextRequests(a?: ContextRequest, b?: ContextRequest) {
      if (a == null || b == null) return undefined
      ...
      return mergeMaps(a, b, merge)
  }
  \<close>
\<close>

type_synonym ContextRequest = "jsval obj"

definition mergeContextRequests ::
  "ContextRequest option \<Rightarrow> ContextRequest option \<Rightarrow> ContextRequest option outcome" where
  "mergeContextRequests a b =
     (case a of
        None \<Rightarrow> Result None
      | Some ra \<Rightarrow>
          (case b of
             None \<Rightarrow> Result None
           | Some rb \<Rightarrow>
               map_outcome Some (mergeMaps undefined_val ra rb (\<lambda>x h. merge x (held_val h)))))"

section \<open>handlers.ts: mergeHandlerLists, mergeDataHandlers\<close>

text \<open>
  \<^verbatim>\<open>
  interface HandlerList<H> { data?: ContextRequest; handlers: H[] }
  \<close>
  Handlers are functions the merge never calls, and an entry of \<^verbatim>\<open>evmLogs\<close> is only
  moved around: type variables.  An array of them can come to hold two more kinds of
  element, through \<^verbatim>\<open>concat\<close>: \<^verbatim>\<open>undefined\<close> and a member of \<^verbatim>\<open>Object.prototype\<close>.
\<close>

datatype 'h elem = Elem 'h | Undefined | Native string

record 'h HandlerList =
  data :: "ContextRequest option"
  handlers :: "'h list"

record ('bh, 'eh, 'ch, 'l, 'kh) DataHandlers =
  pre :: "'bh list"
  post :: "'bh list"
  events :: "'eh HandlerList obj"
  calls :: "'ch HandlerList obj"
  evmLogs :: "'l list obj"
  contractsContractEmitted :: "'kh HandlerList obj"

text \<open>
  \<^verbatim>\<open>
  function mergeHandlerLists<H>(a: HandlerList<H>, b: HandlerList<H>): HandlerList<H> {
      return {
          data: mergeContextRequests(a.data, b.data),
          handlers: a.handlers.concat(b.handlers)
      }
  }
  \<close>
  When \<open>b\<close> is a member of \<^verbatim>\<open>Object.prototype\<close>, \<^verbatim>\<open>b.data\<close> and \<^verbatim>\<open>b.handlers\<close> are
  \<^verbatim>\<open>undefined\<close>: the merged selection is \<^verbatim>\<open>undefined\<close>, and \<^verbatim>\<open>concat(undefined)\<close>
  appends \<^verbatim>\<open>undefined\<close> as one more element.
\<close>

fun mergeHandlerLists ::
  "'h elem HandlerList \<Rightarrow> 'h elem HandlerList held \<Rightarrow> 'h elem HandlerList outcome" where
  "mergeHandlerLists a (Own b) =
     map_outcome (\<lambda>d. \<lparr>data = d, handlers = handlers a @ handlers b\<rparr>)
       (mergeContextRequests (data a) (data b))"
| "mergeHandlerLists a (Inherited name) =
     map_outcome (\<lambda>d. \<lparr>data = d, handlers = handlers a @ [Undefined]\<rparr>)
       (mergeContextRequests (data a) None)"

text \<open>
  \<^verbatim>\<open>(ha, hb) => ha.concat(hb)\<close>: \<^verbatim>\<open>concat\<close> appends the elements of an array, and a
  value that is not an array as one element.
\<close>

fun concat_entries :: "'l elem list \<Rightarrow> 'l elem list held \<Rightarrow> 'l elem list outcome" where
  "concat_entries ha (Own hb) = Result (ha @ hb)"
| "concat_entries ha (Inherited name) = Result (ha @ [Native name])"

text \<open>A handler list and an array of log entries are objects: never \<^verbatim>\<open>== null\<close>.\<close>

definition never_null :: "'a \<Rightarrow> bool" where
  "never_null v = False"

text \<open>
  \<^verbatim>\<open>
  function mergeDataHandlers(a: DataHandlers, b: DataHandlers): DataHandlers {
      return {
          pre: a.pre.concat(b.pre),
          post: a.post.concat(b.post),
          events: mergeMaps(a.events, b.events, mergeHandlerLists),
          calls: mergeMaps(a.calls, b.calls, mergeHandlerLists),
          evmLogs: mergeMaps(a.evmLogs, b.evmLogs, (ha, hb) => ha.concat(hb)),
          contractsContractEmitted: mergeMaps(a.contractsContractEmitted, b.contractsContractEmitted, mergeHandlerLists)
      }
  }
  \<close>
\<close>

definition mergeDataHandlers ::
  "('bh, 'eh elem, 'ch elem, 'l elem, 'kh elem) DataHandlers
     \<Rightarrow> ('bh, 'eh elem, 'ch elem, 'l elem, 'kh elem) DataHandlers
     \<Rightarrow> ('bh, 'eh elem, 'ch elem, 'l elem, 'kh elem) DataHandlers outcome" where
  "mergeDataHandlers a b =
     (case mergeMaps never_null (events a) (events b) mergeHandlerLists of
        Beyond \<Rightarrow> Beyond
      | Result es \<Rightarrow>
     (case mergeMaps never_null (calls a) (calls b) mergeHandlerLists of
        Beyond \<Rightarrow> Beyond
      | Result cs \<Rightarrow>
     (case mergeMaps never_null (evmLogs a) (evmLogs b) concat_entries of
        Beyond \<Rightarrow> Beyond
      | Result ls \<Rightarrow>
     (case mergeMaps never_null (contractsContractEmitted a) (contractsContractEmitted b)
             mergeHandlerLists of
        Beyond \<Rightarrow> Beyond
      | Result ks \<Rightarrow>
          Result \<lparr>pre = pre a @ pre b, post = post a @ post b, events = es, calls = cs,
                  evmLogs = ls, contractsContractEmitted = ks\<rparr>))))"

section \<open>sink.ts: results of calls that may throw\<close>

text \<open>
  A call either returns (\<open>Inr\<close>) or throws (\<open>Inl\<close>); for an \<^verbatim>\<open>async\<close> function these
  are the resolution and the rejection of its promise.  The object the call works on
  is passed in and returned, also when the call throws: what it changed before
  throwing stays changed.  \<open>Rejected e\<close> is an error \<open>e\<close> that came from outside (the
  database, the output stream).
\<close>

datatype 'e thrown = TypeError | AssertionError | Rejected 'e

type_synonym ('s, 'e, 'a) call = "'s \<Rightarrow> ('e thrown + 'a) \<times> 's"

definition and_then :: "('s, 'e, unit) call \<Rightarrow> ('s, 'e, 'a) call \<Rightarrow> ('s, 'e, 'a) call" where
  "and_then f g s = (case f s of (Inl e, s') \<Rightarrow> (Inl e, s') | (Inr u, s') \<Rightarrow> g s')"

section \<open>sink.ts: Insert\<close>

text \<open>
  \<^verbatim>\<open>
  type TableColumns<E> = {[name in keyof E]: {map?: (val: E[name]) => unknown, cast?: string}}
  class Insert<E> {
      private sql: string
      private columns: Record<string, unknown[]>
      constructor(private table: string, private mapping: TableColumns<E>) ...
  \<close>
  Cell values are of a type \<open>'v\<close>; a row is read by column name (\<^verbatim>\<open>row[name]\<close>).
\<close>

record 'v ColumnDef =
  col_map :: "('v \<Rightarrow> 'v) option"
  col_cast :: "string option"

type_synonym 'v TableColumns = "'v ColumnDef obj"

type_synonym 'v row = "string \<Rightarrow> 'v"

record 'v Insert =
  table :: string
  mapping :: "'v TableColumns"
  sql :: string
  columns :: "'v list obj"

text \<open>
  \<^verbatim>\<open>
  private makeColumns() {
      let columns = {}
      for (let name in this.mapping) { columns[name] = [] }
      return columns
  }
  \<close>
\<close>

definition makeColumns :: "'v TableColumns \<Rightarrow> 'v list obj" where
  "makeColumns m = fold (\<lambda>name columns. set_prop name [] columns) (keys m) []"

text \<open>
  The constructor.  \<^verbatim>\<open>'$' + (idx + 1)\<close> writes the number in decimal; an empty
  \<^verbatim>\<open>cast\<close> is falsy and adds nothing.
  \<^verbatim>\<open>
  let names = Object.keys(mapping)
  let args = names.map((name, idx) => {
      let param = '$' + (idx + 1)
      let cast = mapping[name].cast
      if (cast) { param += '::' + cast + '[]' }
      return param
  })
  this.sql = `INSERT INTO ${table} (${names.join(', ')}) SELECT * FROM unnest(${args.join(', ')}) AS i(${names.join(', ')})`
  this.columns = this.makeColumns()
  \<close>
\<close>

fun decimal :: "nat \<Rightarrow> string" where
  "decimal n = (if n < 10 then [''0123456789'' ! n] else decimal (n div 10) @ [''0123456789'' ! (n mod 10)])"

fun join :: "string \<Rightarrow> string list \<Rightarrow> string" where
  "join sep [] = []"
| "join sep [x] = x"
| "join sep (x # y # zs) = x @ sep @ join sep (y # zs)"

definition sql_arg :: "nat \<times> string \<times> 'v ColumnDef \<Rightarrow> string" where
  "sql_arg = (\<lambda>(idx, name, def).
     let param = ''$'' @ decimal (idx + 1)
     in case col_cast def of
          None \<Rightarrow> param
        | Some cast \<Rightarrow> if cast = [] then param else param @ ''::'' @ cast @ ''[]'')"

definition new_Insert :: "string \<Rightarrow> 'v TableColumns \<Rightarrow> 'v Insert" where
  "new_Insert t m =
     (let names = keys m;
          args = map sql_arg (enumerate 0 m)
      in \<lparr>table = t, mapping = m,
          sql = ''INSERT INTO '' @ t @ '' ('' @ join '', '' names @ '') SELECT * FROM unnest(''
                  @ join '', '' args @ '') AS i('' @ join '', '' names @ '')'',
          columns = makeColumns m\<rparr>)"

text \<open>
  \<^verbatim>\<open>
  add(row: E): void {
      for (let name in this.mapping) {
          let def = this.mapping[name]
          this.columns[name].push(def.map ? def.map(row[name]) : row[name])
      }
  }
  \<close>
  \<^verbatim>\<open>this.columns[name].push\<close> throws a TypeError when there is no such column.
\<close>

definition cell :: "'v ColumnDef \<Rightarrow> 'v row \<Rightarrow> string \<Rightarrow> 'v" where
  "cell def row name = (case col_map def of None \<Rightarrow> row name | Some f \<Rightarrow> f (row name))"

fun add_columns ::
  "string list \<Rightarrow> 'v TableColumns \<Rightarrow> 'v row \<Rightarrow> 'v list obj \<Rightarrow> ('e thrown + unit) \<times> 'v list obj" where
  "add_columns [] m row cols = (Inr (), cols)"
| "add_columns (name # names) m row cols =
     (case get_prop m name of
        None \<Rightarrow> (Inl TypeError, cols)
      | Some def \<Rightarrow>
          (case get_prop cols name of
             None \<Rightarrow> (Inl TypeError, cols)
           | Some col \<Rightarrow> add_columns names m row (set_prop name (col @ [cell def row name]) cols)))"

definition add :: "'v row \<Rightarrow> ('v Insert, 'e, unit) call" where
  "add row ins =
     (case add_columns (keys (mapping ins)) (mapping ins) row (columns ins) of
        (r, cols) \<Rightarrow> (r, ins\<lparr>columns := cols\<rparr>))"

text \<open>
  \<^verbatim>\<open>
  addMany(rows: E[]): void {
      for (let i = 0; i < rows.length; i++) { this.add(rows[i]) }
  }
  \<close>
\<close>

fun addMany :: "'v row list \<Rightarrow> ('v Insert, 'e, unit) call" where
  "addMany [] ins = (Inr (), ins)"
| "addMany (r # rows) ins =
     (case add r ins of (Inl e, ins') \<Rightarrow> (Inl e, ins') | (Inr u, ins') \<Rightarrow> addMany rows ins')"

text \<open>
  \<^verbatim>\<open>
  get size(): number {
      for (let key in this.columns) { let col = this.columns[key]; return col.length }
      return 0
  }
  clear(): void { this.columns = this.makeColumns() }
  \<close>
\<close>

definition size_Insert :: "'v Insert \<Rightarrow> nat" where
  "size_Insert ins = (case columns ins of [] \<Rightarrow> 0 | (key, col) # rest \<Rightarrow> length col)"

definition clear :: "'v Insert \<Rightarrow> 'v Insert" where
  "clear ins = ins\<lparr>columns := makeColumns (mapping ins)\<rparr>"

section \<open>sink.ts: the database client\<close>

text \<open>
  \<^verbatim>\<open>db.query(text, values)\<close> is a call to the outside.  The server is a function \<open>srv\<close>
  from its state and the query to a reply (\<open>None\<close>: resolved, \<open>Some e\<close>: rejected with
  \<open>e\<close>) and its next state; nothing is assumed about it.  The client records every
  query sent, with its reply, in \<open>db_log\<close>.
\<close>

type_synonym 'v query = "string \<times> 'v list list"

type_synonym ('d, 'v, 'e) server = "'d \<Rightarrow> 'v query \<Rightarrow> 'e option \<times> 'd"

record ('d, 'v, 'e) client =
  db_state :: 'd
  db_log :: "('v query \<times> 'e option) list"

definition db_query :: "('d, 'v, 'e) server \<Rightarrow> 'v query \<Rightarrow> (('d, 'v, 'e) client, 'e, unit) call" where
  "db_query srv q db =
     (case srv (db_state db) q of
        (reply, d) \<Rightarrow>
          (case reply of None \<Rightarrow> Inr () | Some e \<Rightarrow> Inl (Rejected e),
           \<lparr>db_state = d, db_log = db_log db @ [(q, reply)]\<rparr>))"

text \<open>
  \<^verbatim>\<open>
  async query(db: pg.ClientBase): Promise<void> {
      if (this.size == 0) return
      await db.query(this.sql, Object.values(this.columns))
  }
  \<close>
\<close>

definition query :: "('d, 'v, 'e) server \<Rightarrow> 'v Insert \<Rightarrow> (('d, 'v, 'e) client, 'e, unit) call" where
  "query srv ins db =
     (if size_Insert ins = 0 then (Inr (), db)
      else db_query srv (sql ins, map snd (columns ins)) db)"

section \<open>sink.ts: PostgresSink\<close>

text \<open>
  Modelled from the spec: the type \<^verbatim>\<open>BlockData\<close> of \<^verbatim>\<open>./model\<close>,
  \<^verbatim>\<open>{header: Block, metadata?: Metadata, extrinsics: Extrinsic[], calls: Call[],
  events: Event[], warnings?: Warning[], last: bool}\<close>; these are the fields \<open>write\<close>
  reads.  Each entity is a row.
\<close>

record 'v BlockData =
  block_header :: "'v row"
  block_metadata :: "'v row option"
  block_extrinsics :: "'v row list"
  block_calls :: "'v row list"
  block_events :: "'v row list"
  block_warnings :: "'v row list option"
  block_last :: bool

text \<open>
  Modelled from the spec: the optional collaborators of
  \<^verbatim>\<open>@subsquid/util-internal-counters\<close>, a speed tracker (\<^verbatim>\<open>start()\<close>,
  \<^verbatim>\<open>stop(count, timestamp)\<close>) and a progress tracker (\<^verbatim>\<open>inc(count, timestamp)\<close>), both
  side-effecting, no return value consumed.  A sink holds whether it was given one
  (\<open>speed\<close>, \<open>progress\<close>), and \<open>reported\<close> lists the calls made to them, without the
  clock reading passed along.
\<close>

datatype metric = SpeedStart | SpeedStop nat | ProgressInc nat

record ('d, 'v, 'e) PostgresSink =
  metadataInsert :: "'v Insert"
  headerInsert :: "'v Insert"
  extrinsicInsert :: "'v Insert"
  callInsert :: "'v Insert"
  eventInsert :: "'v Insert"
  warningInsert :: "'v Insert"
  db :: "('d, 'v, 'e) client"
  speed :: bool
  progress :: bool
  reported :: "metric list"

definition plain :: "string \<Rightarrow> 'v ColumnDef" where
  "plain c = \<lparr>col_map = None, col_cast = Some c\<rparr>"

definition mapped :: "('v \<Rightarrow> 'v) \<Rightarrow> string \<Rightarrow> 'v ColumnDef" where
  "mapped f c = \<lparr>col_map = Some f, col_cast = Some c\<rparr>"

text \<open>
  The field initialisers and the constructor.  \<open>toJsonString\<close> and \<open>toJSON\<close> come from
  \<^verbatim>\<open>./util/json\<close> and are parameters.
\<close>

definition new_PostgresSink ::
  "('v \<Rightarrow> 'v) \<Rightarrow> ('v \<Rightarrow> 'v) \<Rightarrow> ('d, 'v, 'e) client \<Rightarrow> bool \<Rightarrow> bool \<Rightarrow> ('d, 'v, 'e) PostgresSink" where
  "new_PostgresSink toJsonString toJSON database sp pr =
     \<lparr>metadataInsert = new_Insert ''metadata''
        [(''spec_version'', plain ''int''), (''block_height'', plain ''int''),
         (''block_hash'', plain ''text''), (''hex'', plain ''text'')],
      headerInsert = new_Insert ''block''
        [(''id'', plain ''text''), (''height'', plain ''numeric''), (''hash'', plain ''text''),
         (''parent_hash'', plain ''text''), (''timestamp'', plain ''timestamptz''),
         (''spec_version'', plain ''int'')],
      extrinsicInsert = new_Insert ''extrinsic''
        [(''id'', plain ''text''), (''block_id'', plain ''text''), (''name'', plain ''text''),
         (''index_in_block'', plain ''integer''), (''signature'', mapped toJsonString ''jsonb''),
         (''success'', plain ''bool''), (''hash'', mapped toJSON ''text''),
         (''call_id'', plain ''text'')],
      callInsert = new_Insert ''call''
        [(''id'', plain ''text''), (''index'', plain ''integer''), (''block_id'', plain ''text''),
         (''extrinsic_id'', plain ''text''), (''name'', plain ''text''),
         (''parent_id'', plain ''text''), (''success'', plain ''bool''),
         (''args'', mapped toJsonString ''jsonb'')],
      eventInsert = new_Insert ''event''
        [(''id'', plain ''text''), (''block_id'', plain ''text''), (''phase'', plain ''text''),
         (''index_in_block'', plain ''integer''), (''name'', plain ''text''),
         (''extrinsic_id'', plain ''text''), (''call_id'', plain ''text''),
         (''args'', mapped toJsonString ''jsonb'')],
      warningInsert = new_Insert ''warning''
        [(''block_id'', plain ''text''), (''message'', plain ''text'')],
      db = database, speed = sp, progress = pr, reported = []\<rparr>"

text \<open>A method of one of the six buffers, as a call on the sink that owns it.\<close>

definition on_metadataInsert :: "('v Insert, 'e, unit) call \<Rightarrow> (('d, 'v, 'e) PostgresSink, 'e, unit) call" where
  "on_metadataInsert f s = (case f (metadataInsert s) of (r, i) \<Rightarrow> (r, s\<lparr>metadataInsert := i\<rparr>))"

definition on_headerInsert :: "('v Insert, 'e, unit) call \<Rightarrow> (('d, 'v, 'e) PostgresSink, 'e, unit) call" where
  "on_headerInsert f s = (case f (headerInsert s) of (r, i) \<Rightarrow> (r, s\<lparr>headerInsert := i\<rparr>))"

definition on_extrinsicInsert :: "('v Insert, 'e, unit) call \<Rightarrow> (('d, 'v, 'e) PostgresSink, 'e, unit) call" where
  "on_extrinsicInsert f s = (case f (extrinsicInsert s) of (r, i) \<Rightarrow> (r, s\<lparr>extrinsicInsert := i\<rparr>))"

definition on_callInsert :: "('v Insert, 'e, unit) call \<Rightarrow> (('d, 'v, 'e) PostgresSink, 'e, unit) call" where
  "on_callInsert f s = (case f (callInsert s) of (r, i) \<Rightarrow> (r, s\<lparr>callInsert := i\<rparr>))"

definition on_eventInsert :: "('v Insert, 'e, unit) call \<Rightarrow> (('d, 'v, 'e) PostgresSink, 'e, unit) call" where
  "on_eventInsert f s = (case f (eventInsert s) of (r, i) \<Rightarrow> (r, s\<lparr>eventInsert := i\<rparr>))"

definition on_warningInsert :: "('v Insert, 'e, unit) call \<Rightarrow> (('d, 'v, 'e) PostgresSink, 'e, unit) call" where
  "on_warningInsert f s = (case f (warningInsert s) of (r, i) \<Rightarrow> (r, s\<lparr>warningInsert := i\<rparr>))"

text \<open>
  \<^verbatim>\<open>
  private async tx<T>(cb: () => Promise<T>): Promise<T> {
      await this.db.query('BEGIN')
      try {
          let result = await cb()
          await this.db.query('COMMIT')
          return result
      } catch(e: any) {
          await this.db.query('ROLLBACK').catch(() => {})
          throw e
      }
  }
  \<close>
  \<open>tx_try\<close> is the \<^verbatim>\<open>try\<close> block.
\<close>

definition tx_try ::
  "('d, 'v, 'e) server \<Rightarrow> (('d, 'v, 'e) client, 'e, 'a) call \<Rightarrow> (('d, 'v, 'e) client, 'e, 'a) call" where
  "tx_try srv cb c =
     (case cb c of
        (Inl e, c1) \<Rightarrow> (Inl e, c1)
      | (Inr result, c1) \<Rightarrow>
          (case db_query srv (''COMMIT'', []) c1 of
             (Inl e, c2) \<Rightarrow> (Inl e, c2)
           | (Inr u, c2) \<Rightarrow> (Inr result, c2)))"

definition tx ::
  "('d, 'v, 'e) server \<Rightarrow> (('d, 'v, 'e) client, 'e, 'a) call \<Rightarrow> (('d, 'v, 'e) client, 'e, 'a) call" where
  "tx srv cb c =
     (case db_query srv (''BEGIN'', []) c of
        (Inl e, c1) \<Rightarrow> (Inl e, c1)
      | (Inr u, c1) \<Rightarrow>
          (case tx_try srv cb c1 of
             (Inl e, c2) \<Rightarrow> (Inl e, snd (db_query srv (''ROLLBACK'', []) c2))
           | (Inr result, c2) \<Rightarrow> (Inr result, c2)))"

text \<open>
  \<^verbatim>\<open>
  private async submit(): Promise<void> {
      let size = this.headerInsert.size
      this.speed?.start()
      await this.tx(async () => {
          await this.metadataInsert.query(this.db)
          await this.headerInsert.query(this.db)
          await this.extrinsicInsert.query(this.db)
          await this.callInsert.query(this.db)
          await this.eventInsert.query(this.db)
          await this.warningInsert.query(this.db)
      })
      this.metadataInsert.clear()
      ... (the other five)
      if (this.speed || this.progress) {
          let time = process.hrtime.bigint()
          this.speed?.stop(size, time)
          this.progress?.inc(size, time)
      }
  }
  \<close>
\<close>

definition submit_queries :: "('d, 'v, 'e) server \<Rightarrow> ('d, 'v, 'e) PostgresSink \<Rightarrow> (('d, 'v, 'e) client, 'e, unit) call" where
  "submit_queries srv s =
     and_then (query srv (metadataInsert s))
    (and_then (query srv (headerInsert s))
    (and_then (query srv (extrinsicInsert s))
    (and_then (query srv (callInsert s))
    (and_then (query srv (eventInsert s))
              (query srv (warningInsert s))))))"

definition submit :: "('d, 'v, 'e) server \<Rightarrow> (('d, 'v, 'e) PostgresSink, 'e, unit) call" where
  "submit srv s =
     (let size = size_Insert (headerInsert s);
          s1 = (if speed s then s\<lparr>reported := reported s @ [SpeedStart]\<rparr> else s)
      in case tx srv (submit_queries srv s1) (db s1) of
           (Inl e, c) \<Rightarrow> (Inl e, s1\<lparr>db := c\<rparr>)
         | (Inr u, c) \<Rightarrow>
             (Inr (),
              s1\<lparr>db := c,
                 metadataInsert := clear (metadataInsert s1),
                 headerInsert := clear (headerInsert s1),
                 extrinsicInsert := clear (extrinsicInsert s1),
                 callInsert := clear (callInsert s1),
                 eventInsert := clear (eventInsert s1),
                 warningInsert := clear (warningInsert s1),
                 reported := reported s1
                   @ (if speed s1 then [SpeedStop size] else [])
                   @ (if progress s1 then [ProgressInc size] else [])\<rparr>))"

text \<open>
  \<^verbatim>\<open>
  async write(block: BlockData): Promise<void> {
      if (block.metadata) { this.metadataInsert.add(block.metadata) }
      this.headerInsert.add(block.header)
      this.extrinsicInsert.addMany(block.extrinsics)
      this.callInsert.addMany(block.calls)
      this.eventInsert.addMany(block.events)
      if (block.warnings) { this.warningInsert.addMany(block.warnings) }
      if (block.last || this.headerInsert.size > 20) { await this.submit() }
  }
  \<close>
  \<open>append_block\<close> is the part of \<open>write\<close> before its last statement (\<^verbatim>\<open>write\<close> is a
  reserved word of the prover, so the method carries the name of its class).
\<close>

definition append_block :: "'v BlockData \<Rightarrow> (('d, 'v, 'e) PostgresSink, 'e, unit) call" where
  "append_block block =
     and_then (case block_metadata block of
                 None \<Rightarrow> (\<lambda>s. (Inr (), s))
               | Some m \<Rightarrow> on_metadataInsert (add m))
    (and_then (on_headerInsert (add (block_header block)))
    (and_then (on_extrinsicInsert (addMany (block_extrinsics block)))
    (and_then (on_callInsert (addMany (block_calls block)))
    (and_then (on_eventInsert (addMany (block_events block)))
              (case block_warnings block of
                 None \<Rightarrow> (\<lambda>s. (Inr (), s))
               | Some ws \<Rightarrow> on_warningInsert (addMany ws))))))"

definition PostgresSink_write :: "('d, 'v, 'e) server \<Rightarrow> 'v BlockData \<Rightarrow> (('d, 'v, 'e) PostgresSink, 'e, unit) call" where
  "PostgresSink_write srv block =
     and_then (append_block block)
       (\<lambda>s. if block_last block \<or> 20 < size_Insert (headerInsert s) then submit srv s
            else (Inr (), s))"

section \<open>Sequences of buffer operations\<close>

text \<open>
  The public operations of an \<open>Insert\<close> that change it, and a run of them, stopping at
  the first that throws.  A buffer is \<open>aligned\<close> at \<open>n\<close> when it holds one column per
  declared name, in the declared order, each of length \<open>n\<close>.
\<close>

datatype 'v buffer_op = Add "'v row" | AddMany "'v row list" | Clear

fun apply_op :: "'v buffer_op \<Rightarrow> ('v Insert, 'e, unit) call" where
  "apply_op (Add row) ins = add row ins"
| "apply_op (AddMany rows) ins = addMany rows ins"
| "apply_op Clear ins = (Inr (), clear ins)"

fun run_ops :: "'v buffer_op list \<Rightarrow> ('v Insert, 'e, unit) call" where
  "run_ops [] ins = (Inr (), ins)"
| "run_ops (x # xs) ins =
     (case apply_op x ins of (Inl e, ins') \<Rightarrow> (Inl e, ins') | (Inr u, ins') \<Rightarrow> run_ops xs ins')"

definition aligned :: "'v Insert \<Rightarrow> nat \<Rightarrow> bool" where
  "aligned b n \<longleftrightarrow> distinct (keys (mapping b)) \<and> keys (columns b) = keys (mapping b)
     \<and> (\<forall>col \<in> snd ` set (columns b). length col = n)"

section \<open>Flushes and sequences of writes\<close>

text \<open>
  The six buffers in the order \<open>submit\<close> queries them, the statement a buffer sends, and
  the statements a flush has to send: those of the buffers that are not empty.
  \<open>run_queries\<close> queries a list of buffers in order, stopping at the first rejection.
\<close>

definition buffers :: "('d, 'v, 'e) PostgresSink \<Rightarrow> 'v Insert list" where
  "buffers s = [metadataInsert s, headerInsert s, extrinsicInsert s, callInsert s, eventInsert s,
                warningInsert s]"

definition statement :: "'v Insert \<Rightarrow> 'v query" where
  "statement ins = (sql ins, map snd (columns ins))"

definition pending :: "('d, 'v, 'e) PostgresSink \<Rightarrow> 'v query list" where
  "pending s = map statement (filter (\<lambda>ins. size_Insert ins \<noteq> 0) (buffers s))"

fun run_queries :: "('d, 'v, 'e) server \<Rightarrow> 'v Insert list \<Rightarrow> (('d, 'v, 'e) client, 'e, unit) call" where
  "run_queries srv [] c = (Inr (), c)"
| "run_queries srv (ins # rest) c = and_then (query srv ins) (run_queries srv rest) c"

definition ok :: "'v query list \<Rightarrow> ('v query \<times> 'e option) list" where
  "ok qs = map (\<lambda>q. (q, None)) qs"

text \<open>
  A buffer is well formed when it is aligned at some length; a sink, when its six
  buffers are.  \<open>grown s s'\<close>: from \<open>s\<close> to \<open>s'\<close> nothing was sent to the database
  or reported, and no buffer got smaller.
\<close>

definition well_formed :: "'v Insert \<Rightarrow> bool" where
  "well_formed ins \<longleftrightarrow> (\<exists>n. aligned ins n)"

definition wf_sink :: "('d, 'v, 'e) PostgresSink \<Rightarrow> bool" where
  "wf_sink s \<longleftrightarrow> list_all well_formed (buffers s)"

definition grown :: "('d, 'v, 'e) PostgresSink \<Rightarrow> ('d, 'v, 'e) PostgresSink \<Rightarrow> bool" where
  "grown s s' \<longleftrightarrow> wf_sink s' \<and> db s' = db s \<and> reported s' = reported s
     \<and> list_all2 (\<lambda>i j. size_Insert i \<le> size_Insert j) (buffers s) (buffers s')"

definition steady :: "(('d, 'v, 'e) PostgresSink, 'e, unit) call \<Rightarrow> bool" where
  "steady f \<longleftrightarrow> (\<forall>s. wf_sink s \<longrightarrow> (\<exists>s'. f s = (Inr (), s') \<and> grown s s'))"

definition grows :: "('v Insert, 'e, unit) call \<Rightarrow> bool" where
  "grows f \<longleftrightarrow> (\<forall>b. well_formed b \<longrightarrow>
     (\<exists>b'. f b = (Inr (), b') \<and> well_formed b' \<and> size_Insert b \<le> size_Insert b'))"

text \<open>
  A sequence of \<open>write\<close> calls, one after the other, with the result of each.
  \<open>no_trigger\<close>: no block of the sequence is marked \<open>last\<close>, and after the appends of
  each call the header buffer holds at most 20 rows.
\<close>

fun writes :: "('d, 'v, 'e) server \<Rightarrow> 'v BlockData list \<Rightarrow> ('d, 'v, 'e) PostgresSink
    \<Rightarrow> ('e thrown + unit) list \<times> ('d, 'v, 'e) PostgresSink" where
  "writes srv [] s = ([], s)"
| "writes srv (b # bs) s =
     (case PostgresSink_write srv b s of
        (r, s1) \<Rightarrow> (case writes srv bs s1 of (rs, s2) \<Rightarrow> (r # rs, s2)))"

fun no_trigger :: "('d, 'v, 'e) server \<Rightarrow> 'v BlockData list \<Rightarrow> ('d, 'v, 'e) PostgresSink \<Rightarrow> bool" where
  "no_trigger srv [] s = True"
| "no_trigger srv (b # bs) s =
     (\<not> block_last b \<and> size_Insert (headerInsert (snd (append_block b s))) \<le> 20
      \<and> no_trigger srv bs (snd (PostgresSink_write srv b s)))"

text \<open>
  The statements of a flush, in the order \<open>submit\<close> sends them when none is rejected:
  \<^verbatim>\<open>BEGIN\<close>, the bulk inserts of the buffers that are not empty, \<^verbatim>\<open>COMMIT\<close>.
  \<open>answers srv d qs\<close> is what a server in state \<open>d\<close> replies to the statements \<open>qs\<close>
  sent one after the other, and \<open>after srv d qs\<close> its state then.  \<open>sent srv s\<close> is
  what \<open>submit srv s\<close> adds to the log of the client: the statements it sent, each with
  the reply it got.  \<open>reach srv c c'\<close>: the client went from \<open>c\<close> to \<open>c'\<close> by sending
  statements to \<open>srv\<close> and logging its replies.
\<close>

definition flush :: "('d, 'v, 'e) PostgresSink \<Rightarrow> 'v query list" where
  "flush s = (''BEGIN'', []) # pending s @ [(''COMMIT'', [])]"

fun answers :: "('d, 'v, 'e) server \<Rightarrow> 'd \<Rightarrow> 'v query list \<Rightarrow> 'e option list" where
  "answers srv d [] = []"
| "answers srv d (q # qs) = (case srv d q of (reply, d') \<Rightarrow> reply # answers srv d' qs)"

fun after :: "('d, 'v, 'e) server \<Rightarrow> 'd \<Rightarrow> 'v query list \<Rightarrow> 'd" where
  "after srv d [] = d"
| "after srv d (q # qs) = after srv (snd (srv d q)) qs"

definition sent :: "('d, 'v, 'e) server \<Rightarrow> ('d, 'v, 'e) PostgresSink \<Rightarrow> ('v query \<times> 'e option) list" where
  "sent srv s = drop (length (db_log (db s))) (db_log (db (snd (submit srv s))))"

definition reach :: "('d, 'v, 'e) server \<Rightarrow> ('d, 'v, 'e) client \<Rightarrow> ('d, 'v, 'e) client \<Rightarrow> bool" where
  "reach srv c c' \<longleftrightarrow> (\<exists>new. db_log c' = db_log c @ new
     \<and> map snd new = answers srv (db_state c) (map fst new)
     \<and> db_state c' = after srv (db_state c) (map fst new))"

text \<open>
  \<open>appended rows ins\<close> is the buffer \<open>ins\<close> with one more cell per row at the end of
  every column: the row's field under the column's name, passed through the column's
  transform when it has one (\<open>cell\<close>).  \<open>with_blocks bs s\<close> is the sink \<open>s\<close> with the
  rows of the blocks \<open>bs\<close> appended to its six buffers: one header row per block, the
  metadata row of each block that has one, the extrinsics, calls and events of every
  block, and the warnings of each block that has some.  Nothing else is changed.
\<close>

definition appended :: "'v row list \<Rightarrow> 'v Insert \<Rightarrow> 'v Insert" where
  "appended rows ins =
     ins\<lparr>columns := map (\<lambda>(name, col).
        (name, case get_prop (mapping ins) name of
                 None \<Rightarrow> col
               | Some def \<Rightarrow> col @ map (\<lambda>row. cell def row name) rows)) (columns ins)\<rparr>"

definition metadata_rows :: "'v BlockData \<Rightarrow> 'v row list" where
  "metadata_rows block = (case block_metadata block of None \<Rightarrow> [] | Some m \<Rightarrow> [m])"

definition warning_rows :: "'v BlockData \<Rightarrow> 'v row list" where
  "warning_rows block = (case block_warnings block of None \<Rightarrow> [] | Some ws \<Rightarrow> ws)"

definition with_blocks :: "'v BlockData list \<Rightarrow> ('d, 'v, 'e) PostgresSink \<Rightarrow> ('d, 'v, 'e) PostgresSink" where
  "with_blocks bs s =
     s\<lparr>metadataInsert := appended (concat (map metadata_rows bs)) (metadataInsert s),
       headerInsert := appended (map block_header bs) (headerInsert s),
       extrinsicInsert := appended (concat (map block_extrinsics bs)) (extrinsicInsert s),
       callInsert := appended (concat (map block_calls bs)) (callInsert s),
       eventInsert := appended (concat (map block_events bs)) (eventInsert s),
       warningInsert := appended (concat (map warning_rows bs)) (warningInsert s)\<rparr>"

text \<open>
  Servers and inputs for the examples: a server that rejects the \<open>n\<close>-th query it
  receives (counting from 0) and one that accepts every query; a block with a header
  and two events; a new sink, and the same sink after the appends of one such block.
\<close>

definition reject_nth :: "nat \<Rightarrow> (nat, 'v, unit) server" where
  "reject_nth n d q = (if d = n then Some () else None, Suc d)"

definition accept_all :: "(nat, 'v, unit) server" where
  "accept_all d q = (None, Suc d)"

definition empty_db :: "(nat, 'v, unit) client" where
  "empty_db = \<lparr>db_state = 0, db_log = []\<rparr>"

definition sample_row :: "string row" where
  "sample_row name = name"

definition sample_block :: "bool \<Rightarrow> string BlockData" where
  "sample_block l =
     \<lparr>block_header = sample_row, block_metadata = None, block_extrinsics = [],
      block_calls = [], block_events = [sample_row, sample_row], block_warnings = None,
      block_last = l\<rparr>"

definition sample_sink :: "(nat, string, unit) PostgresSink" where
  "sample_sink = new_PostgresSink id id empty_db False False"

definition buffered_sink :: "(nat, string, unit) PostgresSink" where
  "buffered_sink = snd (append_block (sample_block False) sample_sink)"

text \<open>
  More of them: a server that rejects every query from the \<open>n\<close>-th on, giving the
  number of the query as the error, with a client and a sink for it; and the new sink
  after the appends of 20 blocks.
\<close>

definition reject_from :: "nat \<Rightarrow> (nat, 'v, nat) server" where
  "reject_from n d q = (if n \<le> d then Some d else None, Suc d)"

definition numbered_db :: "(nat, 'v, nat) client" where
  "numbered_db = \<lparr>db_state = 0, db_log = []\<rparr>"

definition numbered_sink :: "(nat, string, nat) PostgresSink" where
  "numbered_sink = snd (append_block (sample_block False) (new_PostgresSink id id numbered_db False False))"

definition full_sink :: "(nat, string, unit) PostgresSink" where
  "full_sink = with_blocks (replicate 20 (sample_block False)) sample_sink"

section \<open>sink.ts: WritableSink\<close>

text \<open>
  \<^verbatim>\<open>
  export class WritableSink implements Sink {
      private writable: WritableStream
      private speed?: Speed
      private progress?: Progress
      private error?: Error
      private drainHandle?: {resolve: () => void, reject: (err: Error) => void}
  \<close>
  JavaScript runs each call and each event listener to completion, so the sink is a
  state machine whose steps are the calls of \<open>write\<close> and \<open>close\<close> and the
  \<^verbatim>\<open>drain\<close> and \<^verbatim>\<open>error\<close> events of the stream; the part of \<open>write\<close> after its
  \<^verbatim>\<open>await\<close> belongs to the step that settles the awaited promise.  The stream is
  outside: \<open>written\<close> lists the chunks passed to it, and what its \<^verbatim>\<open>write\<close> returns is
  an input of the step.  \<open>listening\<close> says whether the two listeners are attached.
  The calls of \<open>write\<close> are numbered as they start (\<open>started\<close>); \<open>settled\<close> lists, in
  order, the calls whose promise has settled, each with its result; \<open>drainHandle\<close> holds
  the number of the call that awaits the promise it resolves.
\<close>

record 'e WritableSink =
  error :: "'e option"
  drainHandle :: "nat option"
  listening :: bool
  written :: "string list"
  stream_speed :: bool
  stream_progress :: bool
  stream_reported :: "metric list"
  started :: nat
  settled :: "(nat \<times> ('e thrown + unit)) list"

text \<open>
  \<^verbatim>\<open>
  constructor(options) { ...; this.writable.on('error', this.onError); this.writable.on('drain', this.onDrain) }
  close(): void { this.writable.off('error', this.onError); this.writable.off('drain', this.onDrain) }
  \<close>
\<close>

definition new_WritableSink :: "bool \<Rightarrow> bool \<Rightarrow> 'e WritableSink" where
  "new_WritableSink sp pr =
     \<lparr>error = None, drainHandle = None, listening = True, written = [],
      stream_speed = sp, stream_progress = pr, stream_reported = [],
      started = 0, settled = []\<rparr>"

definition close :: "'e WritableSink \<Rightarrow> 'e WritableSink" where
  "close s = s\<lparr>listening := False\<rparr>"

definition settle :: "nat \<Rightarrow> ('e thrown + unit) \<Rightarrow> 'e WritableSink \<Rightarrow> 'e WritableSink" where
  "settle k r s = s\<lparr>settled := settled s @ [(k, r)]\<rparr>"

text \<open>
  \<^verbatim>\<open>
  private drain(): Promise<void> {
      assert(this.drainHandle == null)
      return new Promise((resolve, reject) => { this.drainHandle = {resolve, reject} })
  }
  \<close>
  \<open>drain k\<close> is the call made by the \<open>k\<close>-th \<open>write\<close>: it throws, or leaves that call
  waiting.
\<close>

definition drain :: "nat \<Rightarrow> ('e WritableSink, 'e, unit) call" where
  "drain k s =
     (if drainHandle s \<noteq> None then (Inl AssertionError, s)
      else (Inr (), s\<lparr>drainHandle := Some k\<rparr>))"

text \<open>
  \<^verbatim>\<open>
  async write(block: BlockData): Promise<void> {
      if (this.error) throw this.error
      this.speed?.start()
      this.writable.write(toJsonString(block))
      let wait = !this.writable.write('\n')
      if (wait) { await this.drain() }
      if (this.speed || this.writable) {
          let time = process.hrtime.bigint()
          this.speed?.stop(1, time)
          this.progress?.inc(1, time)
      }
  }
  \<close>
  \<open>write_report\<close> is the end of \<open>write\<close>, from the last \<^verbatim>\<open>if\<close> on (its condition
  holds: \<^verbatim>\<open>this.writable\<close> is an object).  \<open>ret1\<close> and \<open>ret2\<close> are what the stream
  returns for the two chunks.
\<close>

definition write_report :: "nat \<Rightarrow> 'e WritableSink \<Rightarrow> 'e WritableSink" where
  "write_report k s =
     settle k (Inr ())
       (s\<lparr>stream_reported := stream_reported s
            @ (if stream_speed s then [SpeedStop 1] else [])
            @ (if stream_progress s then [ProgressInc 1] else [])\<rparr>)"

definition WritableSink_write ::
  "('b \<Rightarrow> string) \<Rightarrow> 'b \<Rightarrow> bool \<Rightarrow> bool \<Rightarrow> 'e WritableSink \<Rightarrow> 'e WritableSink" where
  "WritableSink_write toJsonString block ret1 ret2 s =
     (let k = started s; s0 = s\<lparr>started := Suc k\<rparr>
      in case error s0 of
           Some e \<Rightarrow> settle k (Inl (Rejected e)) s0
         | None \<Rightarrow>
             (let s1 = (if stream_speed s0
                        then s0\<lparr>stream_reported := stream_reported s0 @ [SpeedStart]\<rparr> else s0);
                  s2 = s1\<lparr>written := written s1 @ [toJsonString block]\<rparr>;
                  s3 = s2\<lparr>written := written s2 @ [[CHR 0x0A]]\<rparr>;
                  wait = (\<not> ret2)
              in if wait
                 then (case drain k s3 of
                         (Inl err, s4) \<Rightarrow> settle k (Inl err) s4
                       | (Inr u, s4) \<Rightarrow> s4)
                 else write_report k s3))"

text \<open>
  \<^verbatim>\<open>
  private onDrain = () => {
      if (this.drainHandle) { this.drainHandle.resolve(); this.drainHandle = undefined }
  }
  private onError = (err: Error) => {
      this.close()
      this.error = err
      if (this.drainHandle) { this.drainHandle.reject(err); this.drainHandle = undefined }
  }
  \<close>
  Resolving lets the waiting \<open>write\<close> run to its end; rejecting makes it throw \<open>err\<close>.
\<close>

definition onDrain :: "'e WritableSink \<Rightarrow> 'e WritableSink" where
  "onDrain s =
     (case drainHandle s of
        None \<Rightarrow> s
      | Some k \<Rightarrow> write_report k (s\<lparr>drainHandle := None\<rparr>))"

definition onError :: "'e \<Rightarrow> 'e WritableSink \<Rightarrow> 'e WritableSink" where
  "onError err s =
     (let s1 = (close s)\<lparr>error := Some err\<rparr>
      in case drainHandle s1 of
           None \<Rightarrow> s1
         | Some k \<Rightarrow> settle k (Inl (Rejected err)) (s1\<lparr>drainHandle := None\<rparr>))"

text \<open>
  What can happen to a sink, and a sequence of such events.  An event of the stream
  reaches the sink only while it listens.
\<close>

datatype ('b, 'e) event = Write 'b bool bool | Drain | Error 'e | Close

fun step :: "('b \<Rightarrow> string) \<Rightarrow> ('b, 'e) event \<Rightarrow> 'e WritableSink \<Rightarrow> 'e WritableSink" where
  "step tj (Write block ret1 ret2) s = WritableSink_write tj block ret1 ret2 s"
| "step tj Drain s = (if listening s then onDrain s else s)"
| "step tj (Error err) s = (if listening s then onError err s else s)"
| "step tj Close s = close s"

fun run :: "('b \<Rightarrow> string) \<Rightarrow> ('b, 'e) event list \<Rightarrow> 'e WritableSink \<Rightarrow> 'e WritableSink" where
  "run tj [] s = s"
| "run tj (ev # evs) s = run tj evs (step tj ev s)"

text \<open>
  \<open>waiting\<close>: the calls of \<open>write\<close> that have started and not settled.  A sequence of
  events is \<open>sequential\<close> when \<open>write\<close> is only called while no earlier call is
  waiting (the single-writer precondition).  \<open>one_waiter\<close> is the invariant: the only
  call that can be waiting is the one \<open>drainHandle\<close> names.
\<close>

fun is_write :: "('b, 'e) event \<Rightarrow> bool" where
  "is_write (Write block ret1 ret2) = True"
| "is_write ev = False"

definition waiting :: "'e WritableSink \<Rightarrow> nat list" where
  "waiting s = filter (\<lambda>k. k \<notin> fst ` set (settled s)) [0..<started s]"

fun sequential :: "('b \<Rightarrow> string) \<Rightarrow> ('b, 'e) event list \<Rightarrow> 'e WritableSink \<Rightarrow> bool" where
  "sequential tj [] s = True"
| "sequential tj (ev # evs) s =
     ((is_write ev \<longrightarrow> waiting s = []) \<and> sequential tj evs (step tj ev s))"

definition one_waiter :: "'e WritableSink \<Rightarrow> bool" where
  "one_waiter s \<longleftrightarrow> (\<forall>k \<in> fst ` set (settled s). k < started s)
     \<and> set (waiting s) = set_option (drainHandle s)"

section \<open>Properties of property lists\<close>

lemma get_prop_set_prop:
  "get_prop (set_prop k v r) k' = (if k' = k then Some v else get_prop r k')"
  by (induction r) (auto simp: get_prop_def)

lemma get_prop_keys: "get_prop a k \<noteq> None \<longleftrightarrow> k \<in> set (keys a)"
  by (simp add: get_prop_def keys_def map_of_eq_None_iff)

section \<open>The field merge\<close>

lemmas merge_eval = merge.simps mergeMaps_def mergeMaps_a_def mergeMaps_b_def keys_def get_prop_def
  js_get_def js_set_def is_null_def undefined_val_def Object_prototype_def

lemma merge_true:
  "merge (JBool True) x = Result (JBool True)" "merge x (JBool True) = Result (JBool True)"
  by (simp_all add: merge.simps)

lemma merge_absent:
  "merge JUndefined x = Result x" "merge (JObj ps) JUndefined = Result (JObj ps)"
  by (cases x; simp add: merge.simps)+

text \<open>
  C3, with the failing input.  In the field merge \<^verbatim>\<open>true\<close> is absorbing on either
  side, and merging with an absent value yields the other value unchanged, be it
  \<^verbatim>\<open>true\<close>, absent or a map.  But on the nested maps \<^verbatim>\<open>{toString: true}\<close> and
  \<^verbatim>\<open>{}\<close> the merge depends on the argument order.  With \<^verbatim>\<open>{toString: true}\<close>
  first, the read \<^verbatim>\<open>b['toString']\<close> yields the function of \<^verbatim>\<open>Object.prototype\<close>,
  so the key is merged with it and kept; with \<^verbatim>\<open>{}\<close> first, the read
  \<^verbatim>\<open>a?.['toString']\<close> yields that function, so the second loop passes the key over
  and the result is \<^verbatim>\<open>{}\<close>.  On \<^verbatim>\<open>{name: true}\<close> and \<^verbatim>\<open>{args: true}\<close> both orders
  give the map with the two keys.
\<close>

theorem merge_prototype_key_order:
  "merge (JBool True) x = Result (JBool True) \<and> merge x (JBool True) = Result (JBool True)
   \<and> merge JUndefined x = Result x
   \<and> merge JUndefined JUndefined = Result JUndefined
   \<and> merge (JObj ps) JUndefined = Result (JObj ps)
   \<and> merge (JObj [(''toString'', JBool True)]) (JObj []) = Result (JObj [(''toString'', JBool True)])
   \<and> merge (JObj []) (JObj [(''toString'', JBool True)]) = Result (JObj [])
   \<and> merge (JObj [(''name'', JBool True)]) (JObj [(''args'', JBool True)])
       = Result (JObj [(''name'', JBool True), (''args'', JBool True)])
   \<and> merge (JObj [(''args'', JBool True)]) (JObj [(''name'', JBool True)])
       = Result (JObj [(''args'', JBool True), (''name'', JBool True)])"
proof -
  have "merge (JObj [(''toString'', JBool True)]) (JObj []) = Result (JObj [(''toString'', JBool True)])"
    "merge (JObj []) (JObj [(''toString'', JBool True)]) = Result (JObj [])"
    "merge (JObj [(''name'', JBool True)]) (JObj [(''args'', JBool True)])
       = Result (JObj [(''name'', JBool True), (''args'', JBool True)])"
    "merge (JObj [(''args'', JBool True)]) (JObj [(''name'', JBool True)])
       = Result (JObj [(''args'', JBool True), (''name'', JBool True)])"
    by (simp_all add: merge_eval)
  then show ?thesis by (simp add: merge_true merge_absent)
qed

text \<open>
  C4, at the failing input.  The key \<^verbatim>\<open>toString\<close>, present in the second tree only,
  does not pass through: \<^verbatim>\<open>mergeContextRequests({event: true}, {toString: true})\<close> is
  \<^verbatim>\<open>{event: true}\<close>, because \<^verbatim>\<open>a?.['toString']\<close> is the function of
  \<^verbatim>\<open>Object.prototype\<close> and not \<^verbatim>\<open>null\<close>.  The same holds one level down, under a key
  both trees have.  On trees whose keys are \<^verbatim>\<open>event\<close>, \<^verbatim>\<open>call\<close>, \<^verbatim>\<open>extrinsic\<close>,
  \<^verbatim>\<open>name\<close> and \<^verbatim>\<open>args\<close> the result is the key-wise merge the claim describes, and an
  absent tree on either side gives an absent result.
\<close>

theorem mergeContextRequests_prototype_key:
  "mergeContextRequests (Some [(''event'', JBool True)]) (Some [(''toString'', JBool True)])
     = Result (Some [(''event'', JBool True)])
   \<and> mergeContextRequests (Some [(''event'', JObj [(''name'', JBool True)])])
        (Some [(''event'', JObj [(''toString'', JBool True)])])
     = Result (Some [(''event'', JObj [(''name'', JBool True)])])
   \<and> mergeContextRequests
        (Some [(''event'', JObj [(''name'', JBool True)]), (''call'', JBool True)])
        (Some [(''event'', JObj [(''args'', JBool True)]), (''extrinsic'', JBool True)])
     = Result (Some [(''event'', JObj [(''name'', JBool True), (''args'', JBool True)]),
                     (''call'', JBool True), (''extrinsic'', JBool True)])
   \<and> mergeContextRequests None (Some [(''event'', JBool True)]) = Result None
   \<and> mergeContextRequests (Some [(''event'', JBool True)]) None = Result None"
  by (simp add: merge_eval mergeContextRequests_def)

text \<open>
  C5, at the failing input.  Registry \<open>a\<close> has an entry under \<open>events\<close> for the key
  \<^verbatim>\<open>toString\<close>, which registry \<open>b\<close> does not define.  \<open>mergeDataHandlers a b\<close> does not
  carry the entry through unchanged: \<^verbatim>\<open>b.events['toString']\<close> is the function of
  \<^verbatim>\<open>Object.prototype\<close>, so the entry is merged with it, its \<open>data\<close> becomes absent and
  its \<open>handlers\<close> gain an \<^verbatim>\<open>undefined\<close> element.  \<open>mergeDataHandlers b a\<close> loses the
  entry.  Everything else is as the claim says: \<open>pre\<close> and \<open>post\<close> are concatenated
  in argument order, the entries that only one registry has under \<^verbatim>\<open>transfer\<close> and
  \<^verbatim>\<open>0xabc\<close> are carried through, and the two entries under \<^verbatim>\<open>Transfer\<close> are merged,
  handlers in argument order and \<open>data\<close> by \<open>mergeContextRequests\<close>.
\<close>

theorem mergeDataHandlers_prototype_key:
  "mergeDataHandlers
      \<lparr>pre = [10::nat], post = [11],
       events = [(''toString'', \<lparr>data = Some [(''amount'', JBool True)], handlers = [Elem (1::nat)]\<rparr>),
                 (''Transfer'', \<lparr>data = Some [(''amount'', JBool True)], handlers = [Elem 2]\<rparr>)],
       calls = [(''transfer'', \<lparr>data = None, handlers = [Elem (3::nat)]\<rparr>)],
       evmLogs = ([] :: nat elem list obj),
       contractsContractEmitted = []\<rparr>
      \<lparr>pre = [20], post = [21],
       events = [(''Transfer'', \<lparr>data = Some [(''from'', JBool True)], handlers = [Elem 4]\<rparr>)],
       calls = [], evmLogs = [],
       contractsContractEmitted = [(''0xabc'', \<lparr>data = None, handlers = [Elem (5::nat)]\<rparr>)]\<rparr>
     = Result
      \<lparr>pre = [10, 20], post = [11, 21],
       events = [(''toString'', \<lparr>data = None, handlers = [Elem 1, Undefined]\<rparr>),
                 (''Transfer'', \<lparr>data = Some [(''amount'', JBool True), (''from'', JBool True)],
                                handlers = [Elem 2, Elem 4]\<rparr>)],
       calls = [(''transfer'', \<lparr>data = None, handlers = [Elem 3]\<rparr>)],
       evmLogs = [],
       contractsContractEmitted = [(''0xabc'', \<lparr>data = None, handlers = [Elem 5]\<rparr>)]\<rparr>
   \<and> mergeDataHandlers
      \<lparr>pre = [20], post = [21],
       events = [(''Transfer'', \<lparr>data = Some [(''from'', JBool True)], handlers = [Elem 4]\<rparr>)],
       calls = [], evmLogs = [],
       contractsContractEmitted = [(''0xabc'', \<lparr>data = None, handlers = [Elem (5::nat)]\<rparr>)]\<rparr>
      \<lparr>pre = [10::nat], post = [11],
       events = [(''toString'', \<lparr>data = Some [(''amount'', JBool True)], handlers = [Elem (1::nat)]\<rparr>),
                 (''Transfer'', \<lparr>data = Some [(''amount'', JBool True)], handlers = [Elem 2]\<rparr>)],
       calls = [(''transfer'', \<lparr>data = None, handlers = [Elem (3::nat)]\<rparr>)],
       evmLogs = ([] :: nat elem list obj),
       contractsContractEmitted = []\<rparr>
     = Result
      \<lparr>pre = [20, 10], post = [21, 11],
       events = [(''Transfer'', \<lparr>data = Some [(''from'', JBool True), (''amount'', JBool True)],
                                handlers = [Elem 4, Elem 2]\<rparr>)],
       calls = [(''transfer'', \<lparr>data = None, handlers = [Elem 3]\<rparr>)],
       evmLogs = [],
       contractsContractEmitted = [(''0xabc'', \<lparr>data = None, handlers = [Elem 5]\<rparr>)]\<rparr>"
  by (simp add: merge_eval mergeContextRequests_def mergeDataHandlers_def never_null_def)

text \<open>
  C10 (as amended).  A falsy field value \<open>f\<close> (\<^verbatim>\<open>false\<close> or \<^verbatim>\<open>undefined\<close>) counts as
  an absent selection: as first argument it yields the other value \<open>x\<close>; as second
  argument it yields \<open>x\<close> when \<open>x\<close> is truthy, and \<open>f\<close> itself when \<open>x\<close> is falsy too.
  So \<^verbatim>\<open>false\<close> never restricts the other handler's selection.
\<close>

theorem merge_falsy_is_absent:
  "\<not> truthy f \<Longrightarrow>
     merge f x = Result x \<and> (truthy x \<longrightarrow> merge x f = Result x)
     \<and> (\<not> truthy x \<longrightarrow> merge x f = Result f)"
  by (cases f; cases x) (auto simp: merge.simps)

theorem merge_falsy_is_absent_witness:
  "\<not> truthy (JBool False) \<and> truthy (JObj [(''name'', JBool True)])
   \<and> merge (JBool False) (JObj [(''name'', JBool True)]) = Result (JObj [(''name'', JBool True)])
   \<and> merge (JObj [(''name'', JBool True)]) (JBool False) = Result (JObj [(''name'', JBool True)])
   \<and> \<not> truthy JUndefined \<and> merge JUndefined (JBool False) = Result (JBool False)"
  using merge_falsy_is_absent[of "JBool False" "JObj [(''name'', JBool True)]"]
    merge_falsy_is_absent[of "JBool False" JUndefined]
  by simp

text \<open>
  C10, the claim as written: merging a falsy value with \<open>X\<close> yields \<open>X\<close> in either
  argument order.  It fails for the falsy value \<^verbatim>\<open>false\<close> as second argument and
  \<open>X\<close> absent: \<^verbatim>\<open>!fa\<close> holds, so the merge returns \<open>fb\<close>, which is \<^verbatim>\<open>false\<close>.
\<close>

theorem merge_falsy_counterexample:
  "\<not> truthy (JBool False) \<and> merge JUndefined (JBool False) \<noteq> Result JUndefined"
  by (simp add: merge.simps)

section \<open>The column buffer\<close>

lemma keys_set_prop_old: "k \<in> set (keys r) \<Longrightarrow> keys (set_prop k v r) = keys r"
  by (induction r) (auto simp: keys_def)

lemma keys_set_prop_new: "k \<notin> set (keys r) \<Longrightarrow> set_prop k v r = r @ [(k, v)]"
  by (induction r) (auto simp: keys_def)

lemma fold_makeColumns:
  "distinct ks \<Longrightarrow> set ks \<inter> set (keys r0) = {} \<Longrightarrow>
     fold (\<lambda>name columns. set_prop name [] columns) ks r0 = r0 @ map (\<lambda>name. (name, [])) ks"
proof (induction ks arbitrary: r0)
  case Nil
  show ?case by simp
next
  case (Cons k ks)
  from Cons.prems have k: "k \<notin> set (keys r0)" by auto
  have "set ks \<inter> set (keys (r0 @ [(k, [])])) = {}"
    using Cons.prems by (auto simp: keys_def)
  with Cons.IH[of "r0 @ [(k, [])]"] Cons.prems show ?case
    by (simp add: keys_set_prop_new[OF k])
qed

lemma makeColumns_distinct:
  "distinct (keys m) \<Longrightarrow> makeColumns m = map (\<lambda>name. (name, [])) (keys m)"
  using fold_makeColumns[of "keys m" "[]"] by (simp add: makeColumns_def keys_def)

lemma keys_names: "keys (map (\<lambda>name. (name, v)) ks) = ks"
  by (simp add: keys_def comp_def)

lemma keys_makeColumns: "distinct (keys m) \<Longrightarrow> keys (makeColumns m) = keys m"
  by (simp add: makeColumns_distinct keys_names)

lemma distinct_set_prop_snd:
  "distinct (keys r) \<Longrightarrow> (n, c) \<in> set r \<longleftrightarrow> get_prop r n = Some c"
  by (simp add: get_prop_def keys_def)

lemma add_columns_ok:
  "distinct names \<Longrightarrow> set names \<subseteq> set (keys m) \<Longrightarrow> set names \<subseteq> set (keys cols) \<Longrightarrow>
     \<exists>cols'. (add_columns names m row cols :: ('e thrown + unit) \<times> _) = (Inr (), cols') \<and> keys cols' = keys cols
       \<and> (\<forall>n. n \<notin> set names \<longrightarrow> get_prop cols' n = get_prop cols n)
       \<and> (\<forall>n def col. n \<in> set names \<longrightarrow> get_prop m n = Some def \<longrightarrow> get_prop cols n = Some col
             \<longrightarrow> get_prop cols' n = Some (col @ [cell def row n]))"
proof (induction names arbitrary: cols)
  case Nil
  show ?case by simp
next
  case (Cons name names)
  from Cons.prems obtain def where d: "get_prop m name = Some def"
    using get_prop_keys[of m name] by auto
  from Cons.prems obtain col where c: "get_prop cols name = Some col"
    using get_prop_keys[of cols name] by auto
  let ?cols1 = "set_prop name (col @ [cell def row name]) cols"
  have k1: "keys ?cols1 = keys cols"
    using Cons.prems by (simp add: keys_set_prop_old)
  with Cons.prems have "set names \<subseteq> set (keys ?cols1)" by simp
  with Cons.prems have "\<exists>cols'. (add_columns names m row ?cols1 :: ('e thrown + unit) \<times> _) = (Inr (), cols') \<and> keys cols' = keys ?cols1
       \<and> (\<forall>n. n \<notin> set names \<longrightarrow> get_prop cols' n = get_prop ?cols1 n)
       \<and> (\<forall>n def col. n \<in> set names \<longrightarrow> get_prop m n = Some def \<longrightarrow> get_prop ?cols1 n = Some col
             \<longrightarrow> get_prop cols' n = Some (col @ [cell def row n]))"
    using Cons.IH[of ?cols1] by simp
  then obtain cols' where
    r: "(add_columns names m row ?cols1 :: ('e thrown + unit) \<times> _) = (Inr (), cols')" "keys cols' = keys ?cols1"
      "\<And>n. n \<notin> set names \<Longrightarrow> get_prop cols' n = get_prop ?cols1 n"
      "\<And>n def col. n \<in> set names \<Longrightarrow> get_prop m n = Some def \<Longrightarrow> get_prop ?cols1 n = Some col
         \<Longrightarrow> get_prop cols' n = Some (col @ [cell def row n])"
    by blast
  have "(add_columns (name # names) m row cols :: ('e thrown + unit) \<times> _) = (Inr (), cols')"
    using d c r(1) by simp
  moreover have "keys cols' = keys cols" using r(2) k1 by simp
  moreover have "n \<notin> set (name # names) \<longrightarrow> get_prop cols' n = get_prop cols n" for n
    using r(3)[of n] by (simp add: get_prop_set_prop)
  moreover have "n \<in> set (name # names) \<longrightarrow> get_prop m n = Some def' \<longrightarrow> get_prop cols n = Some col'
      \<longrightarrow> get_prop cols' n = Some (col' @ [cell def' row n])" for n def' col'
  proof (cases "n = name")
    case True
    with Cons.prems have "n \<notin> set names" by simp
    with True r(3)[of n] d c show ?thesis by (simp add: get_prop_set_prop)
  next
    case False
    with r(4)[of n def' col'] show ?thesis by (simp add: get_prop_set_prop)
  qed
  ultimately show ?case by blast
qed


lemma aligned_new: "distinct (keys m) \<Longrightarrow> aligned (new_Insert t m) 0"
  by (auto simp: aligned_def new_Insert_def Let_def makeColumns_distinct keys_names)

lemma aligned_clear: "aligned b n \<Longrightarrow> aligned (clear b) 0"
  by (auto simp: aligned_def clear_def makeColumns_distinct keys_names)

lemma columns_clear:
  "aligned b n \<Longrightarrow> columns (clear b) = map (\<lambda>name. (name, [])) (keys (mapping b))"
  by (simp add: aligned_def clear_def makeColumns_distinct)

lemma size_Insert_aligned: "aligned b n \<Longrightarrow> size_Insert b = (if columns b = [] then 0 else n)"
  by (cases "columns b") (auto simp: aligned_def size_Insert_def)

lemma aligned_add:
  assumes "aligned b n"
  shows "\<exists>b'. (add row b :: ('e thrown + unit) \<times> _) = (Inr (), b') \<and> aligned b' (Suc n)
           \<and> b' = b\<lparr>columns := columns b'\<rparr>
           \<and> (\<forall>name def. get_prop (mapping b) name = Some def \<longrightarrow>
                 (\<exists>col. get_prop (columns b) name = Some col
                    \<and> get_prop (columns b') name = Some (col @ [cell def row name])))"
proof -
  let ?names = "keys (mapping b)"
  from assms have d: "distinct ?names" and k: "keys (columns b) = ?names"
    and len: "\<And>col. col \<in> snd ` set (columns b) \<Longrightarrow> length col = n"
    by (auto simp: aligned_def)
  from add_columns_ok[of ?names "mapping b" "columns b" row] d k
  obtain cols' where c:
    "(add_columns ?names (mapping b) row (columns b) :: ('e thrown + unit) \<times> _) = (Inr (), cols')"
    "keys cols' = keys (columns b)"
    "\<And>name def col. name \<in> set ?names \<Longrightarrow> get_prop (mapping b) name = Some def
       \<Longrightarrow> get_prop (columns b) name = Some col
       \<Longrightarrow> get_prop cols' name = Some (col @ [cell def row name])"
    by auto blast
  let ?b' = "b\<lparr>columns := cols'\<rparr>"
  have grow: "\<exists>col. get_prop (columns b) name = Some col
      \<and> get_prop cols' name = Some (col @ [cell def row name])"
    if "get_prop (mapping b) name = Some def" for name def
  proof -
    from that have "name \<in> set ?names" using get_prop_keys[of "mapping b" name] by simp
    moreover with k obtain col where "get_prop (columns b) name = Some col"
      using get_prop_keys[of "columns b" name] by auto
    ultimately show ?thesis using c(3) that by blast
  qed
  have "length col' = Suc n" if "col' \<in> snd ` set cols'" for col'
  proof -
    from that obtain name where m: "(name, col') \<in> set cols'" by auto
    with c(2) k d have g: "get_prop cols' name = Some col'"
      by (simp add: distinct_set_prop_snd)
    from m have "name \<in> set (keys cols')" by (force simp: keys_def)
    with c(2) k have "name \<in> set ?names" by simp
    then obtain def where "get_prop (mapping b) name = Some def"
      using get_prop_keys[of "mapping b" name] by auto
    from grow[OF this] g obtain col where "get_prop (columns b) name = Some col"
      "col' = col @ [cell def row name]" by auto
    with len[of col] show ?thesis by (auto dest: get_prop_in)
  qed
  with d k c(2) have "aligned ?b' (Suc n)" by (simp add: aligned_def)
  moreover have "(add row b :: ('e thrown + unit) \<times> _) = (Inr (), ?b')"
    using c(1) by (simp add: add_def)
  ultimately show ?thesis using grow by (intro exI[of _ ?b']) simp
qed

lemma aligned_addMany:
  "aligned b n \<Longrightarrow>
     \<exists>b'. (addMany rows b :: ('e thrown + unit) \<times> _) = (Inr (), b') \<and> aligned b' (n + length rows)
       \<and> b' = b\<lparr>columns := columns b'\<rparr>"
proof (induction rows arbitrary: b n)
  case Nil
  then show ?case by simp
next
  case (Cons r rows)
  from aligned_add[OF Cons.prems, of r] obtain b1 where
    b1: "(add r b :: ('e thrown + unit) \<times> _) = (Inr (), b1)" "aligned b1 (Suc n)"
      "b1 = b\<lparr>columns := columns b1\<rparr>" by blast
  from Cons.IH[OF b1(2)] obtain b' where
    b': "(addMany rows b1 :: ('e thrown + unit) \<times> _) = (Inr (), b')"
      "aligned b' (Suc n + length rows)" "b' = b1\<lparr>columns := columns b'\<rparr>" by blast
  have "b' = b\<lparr>columns := columns b'\<rparr>"
    using b1(3) b'(3) by (metis Insert.surjective Insert.update_convs(4))
  with b1(1) b'(1,2) show ?case by simp
qed

lemma addMany_run_ops:
  "(addMany rows b :: ('e thrown + unit) \<times> _) = run_ops (map Add rows) b"
  by (induction rows arbitrary: b) (auto split: prod.splits sum.splits)

lemma aligned_run_ops:
  "aligned b n \<Longrightarrow>
     \<exists>b' n'. (run_ops ops b :: ('e thrown + unit) \<times> _) = (Inr (), b') \<and> aligned b' n'
        \<and> b' = b\<lparr>columns := columns b'\<rparr>"
proof (induction ops arbitrary: b n)
  case Nil
  then show ?case by auto
next
  case (Cons x ops)
  have "\<exists>b1 n1. (apply_op x b :: ('e thrown + unit) \<times> _) = (Inr (), b1) \<and> aligned b1 n1
      \<and> b1 = b\<lparr>columns := columns b1\<rparr>"
  proof (cases x)
    case (Add row)
    with aligned_add[OF Cons.prems, of row] show ?thesis by auto
  next
    case (AddMany rows)
    with aligned_addMany[OF Cons.prems, of rows] show ?thesis by auto
  next
    case Clear
    with aligned_clear[OF Cons.prems] show ?thesis by (auto simp: clear_def)
  qed
  then obtain b1 n1 where
    b1: "(apply_op x b :: ('e thrown + unit) \<times> _) = (Inr (), b1)" "aligned b1 n1"
      "b1 = b\<lparr>columns := columns b1\<rparr>" by blast
  from Cons.IH[OF b1(2)] obtain b' n' where
    b': "(run_ops ops b1 :: ('e thrown + unit) \<times> _) = (Inr (), b')" "aligned b' n'"
      "b' = b1\<lparr>columns := columns b'\<rparr>" by blast
  have "b' = b\<lparr>columns := columns b'\<rparr>"
    using b1(3) b'(3) by (metis Insert.surjective Insert.update_convs(4))
  with b1(1) b'(1,2) show ?case by auto
qed

text \<open>
  C9.  Take a buffer declared with distinct column names.  It starts with size 0.
  After any sequence of \<open>add\<close>, \<open>addMany\<close> and \<open>clear\<close> no operation has thrown, the
  buffer holds exactly the declared columns in the declared order, and every column has
  the length \<open>size\<close> returns.  From there \<open>add\<close> appends to each declared column one
  value, the row's field passed through the column's transform when it has one;
  \<open>addMany\<close> is \<open>add\<close> on each row in order; and \<open>clear\<close> leaves every declared
  column empty, in the declared order, with size 0.
\<close>

theorem ColumnBuffer_row_alignment:
  assumes "distinct (keys m)"
  shows "size_Insert (new_Insert t m) = 0
     \<and> (\<exists>b. (run_ops ops (new_Insert t m) :: ('e thrown + unit) \<times> _) = (Inr (), b)
          \<and> mapping b = m \<and> keys (columns b) = keys m
          \<and> (\<forall>col \<in> snd ` set (columns b). length col = size_Insert b)
          \<and> (\<exists>b'. (add row b :: ('e thrown + unit) \<times> _) = (Inr (), b')
                \<and> (\<forall>name def. get_prop m name = Some def \<longrightarrow>
                      (\<exists>col. get_prop (columns b) name = Some col
                         \<and> get_prop (columns b') name = Some (col @ [cell def row name]))))
          \<and> (addMany rows b :: ('e thrown + unit) \<times> _) = run_ops (map Add rows) b
          \<and> columns (clear b) = map (\<lambda>name. (name, [])) (keys m)
          \<and> mapping (clear b) = m
          \<and> size_Insert (clear b) = 0)"
proof -
  let ?b0 = "new_Insert t m"
  have a0: "aligned ?b0 0" using assms by (rule aligned_new)
  have m0: "mapping ?b0 = m" by (simp add: new_Insert_def Let_def)
  from aligned_run_ops[OF a0, of ops] obtain b n where
    b: "(run_ops ops ?b0 :: ('e thrown + unit) \<times> _) = (Inr (), b)" "aligned b n"
      "b = ?b0\<lparr>columns := columns b\<rparr>" by blast
  from b(3) m0 have mb: "mapping b = m"
    by (metis Insert.select_convs(2) Insert.surjective Insert.update_convs(4))
  from b(2) mb have kb: "keys (columns b) = keys m" by (simp add: aligned_def)
  have sz: "\<forall>col \<in> snd ` set (columns b). length col = size_Insert b"
    using b(2) size_Insert_aligned[OF b(2)] by (auto simp: aligned_def)
  from aligned_add[OF b(2), of row] mb
  have ad: "\<exists>b'. (add row b :: ('e thrown + unit) \<times> _) = (Inr (), b')
      \<and> (\<forall>name def. get_prop m name = Some def \<longrightarrow>
            (\<exists>col. get_prop (columns b) name = Some col
               \<and> get_prop (columns b') name = Some (col @ [cell def row name])))"
    by auto
  have cl: "columns (clear b) = map (\<lambda>name. (name, [])) (keys m)"
    using columns_clear[OF b(2)] mb by simp
  have "mapping (clear b) = m" using mb by (simp add: clear_def)
  moreover have "size_Insert (clear b) = 0"
    using size_Insert_aligned[OF aligned_clear[OF b(2)]] by (simp split: if_splits)
  moreover have "size_Insert ?b0 = 0"
    using size_Insert_aligned[OF a0] by (simp split: if_splits)
  ultimately show ?thesis
    using b(1) mb kb sz ad cl addMany_run_ops[of rows b] by blast
qed

theorem ColumnBuffer_row_alignment_witness:
  "distinct (keys [(''id'', plain ''text''), (''block_id'', plain ''text''),
                   (''name'', mapped (\<lambda>v. ''<'' @ v @ ''>'') ''text'')])
   \<and> (\<exists>b. (run_ops [Add (\<lambda>name. if name = ''id'' then ''1-0'' else if name = ''block_id'' then ''1''
                              else ''balances.transfer'')]
             (new_Insert ''extrinsic''
                [(''id'', plain ''text''), (''block_id'', plain ''text''),
                 (''name'', mapped (\<lambda>v. ''<'' @ v @ ''>'') ''text'')])
               :: (unit thrown + unit) \<times> _) = (Inr (), b)
         \<and> columns b = [(''id'', [''1-0'']), (''block_id'', [''1'']),
                         (''name'', [''<balances.transfer>''])]
         \<and> size_Insert b = 1
         \<and> (\<forall>col \<in> snd ` set (columns b). length col = size_Insert b)
         \<and> columns (clear b) = [(''id'', []), (''block_id'', []), (''name'', [])]
         \<and> size_Insert (clear b) = 0)"
proof -
  let ?m = "[(''id'', plain ''text''), (''block_id'', plain ''text''),
             (''name'', mapped (\<lambda>v. ''<'' @ v @ ''>'') ''text'')]"
  let ?row = "\<lambda>name. if name = ''id'' then ''1-0'' else if name = ''block_id'' then ''1''
                       else ''balances.transfer''"
  have d: "distinct (keys ?m)" by (simp add: keys_def)
  have k: "keys ?m = [''id'', ''block_id'', ''name'']" by (simp add: keys_def)
  have run: "(run_ops [Add ?row] (new_Insert ''extrinsic'' ?m) :: (unit thrown + unit) \<times> _)
      = (Inr (), (new_Insert ''extrinsic'' ?m)\<lparr>columns :=
           [(''id'', [''1-0'']), (''block_id'', [''1'']), (''name'', [''<balances.transfer>''])]\<rparr>)"
    by (simp add: add_def new_Insert_def Let_def makeColumns_def keys_def get_prop_def cell_def
        plain_def mapped_def)
  from ColumnBuffer_row_alignment[OF d, of "''extrinsic''" "[Add ?row]" ?row "[]"]
  obtain b where b: "(run_ops [Add ?row] (new_Insert ''extrinsic'' ?m) :: (unit thrown + unit) \<times> _)
       = (Inr (), b)"
    "\<forall>col \<in> snd ` set (columns b). length col = size_Insert b"
    "columns (clear b) = map (\<lambda>name. (name, [])) (keys ?m)"
    "size_Insert (clear b) = 0"
    by blast
  from b(1) run have c: "columns b =
      [(''id'', [''1-0'']), (''block_id'', [''1'']), (''name'', [''<balances.transfer>''])]"
    by simp
  then have "size_Insert b = 1" by (simp add: size_Insert_def)
  with d b c k show ?thesis by simp
qed

section \<open>The transactional writer\<close>

lemma and_then_return: "and_then f (\<lambda>c. (Inr (), c)) = f"
  by (rule ext) (auto simp: and_then_def split: prod.splits sum.splits)

lemma submit_queries_run: "submit_queries srv s = run_queries srv (buffers s)"
proof -
  have "run_queries srv [i] = query srv i" for i
    by (rule ext) (auto simp: and_then_def split: prod.splits sum.splits)
  moreover have "run_queries srv (i # j # is) = and_then (query srv i) (run_queries srv (j # is))"
    for i j "is"
    by (rule ext) simp
  ultimately show ?thesis
    by (simp add: submit_queries_def buffers_def del: run_queries.simps)
qed

lemma db_query_log:
  "db_query srv q c = (r, c') \<Longrightarrow>
     (r = Inr () \<and> db_log c' = db_log c @ [(q, None)])
     \<or> (\<exists>e. r = Inl (Rejected e) \<and> db_log c' = db_log c @ [(q, Some e)])"
  by (auto simp: db_query_def split: prod.splits option.splits)

lemma run_queries_log:
  "run_queries srv inss c = (r, c') \<Longrightarrow>
     (let qs = map statement (filter (\<lambda>ins. size_Insert ins \<noteq> 0) inss) in
      (r = Inr () \<and> db_log c' = db_log c @ ok qs)
      \<or> (\<exists>e n. r = Inl (Rejected e) \<and> n < length qs
            \<and> db_log c' = db_log c @ ok (take n qs) @ [(qs ! n, Some e)]))"
proof (induction inss arbitrary: c)
  case Nil
  then show ?case by (simp add: ok_def)
next
  case (Cons ins rest)
  let ?qs = "map statement (filter (\<lambda>ins. size_Insert ins \<noteq> 0) rest)"
  show ?case
  proof (cases "size_Insert ins = 0")
    case True
    with Cons.prems have "run_queries srv rest c = (r, c')"
      by (simp add: and_then_def query_def)
    from Cons.IH[OF this] True show ?thesis by simp
  next
    case False
    obtain r1 c1 where q: "db_query srv (statement ins) c = (r1, c1)" by fastforce
    from db_query_log[OF q] show ?thesis
    proof (elim disjE conjE exE)
      assume r1: "r1 = Inr ()" and l1: "db_log c1 = db_log c @ [(statement ins, None)]"
      with Cons.prems False q have "run_queries srv rest c1 = (r, c')"
        by (simp add: and_then_def query_def statement_def)
      from Cons.IH[OF this] have
        "(r = Inr () \<and> db_log c' = db_log c1 @ ok ?qs)
         \<or> (\<exists>e n. r = Inl (Rejected e) \<and> n < length ?qs
               \<and> db_log c' = db_log c1 @ ok (take n ?qs) @ [(?qs ! n, Some e)])"
        by (simp add: Let_def)
      then show ?thesis
      proof (elim disjE conjE exE)
        assume "r = Inr ()" "db_log c' = db_log c1 @ ok ?qs"
        with l1 False show ?thesis by (simp add: ok_def)
      next
        fix e n
        assume "r = Inl (Rejected e)" "n < length ?qs"
          "db_log c' = db_log c1 @ ok (take n ?qs) @ [(?qs ! n, Some e)]"
        with l1 False show ?thesis
          by (auto simp: Let_def ok_def intro!: exI[of _ "Suc n"])
      qed
    next
      fix e
      assume r1: "r1 = Inl (Rejected e)" and l1: "db_log c1 = db_log c @ [(statement ins, Some e)]"
      with Cons.prems False q have "r = Inl (Rejected e)" "c' = c1"
        by (auto simp: and_then_def query_def statement_def)
      with l1 False show ?thesis
        by (auto simp: Let_def ok_def intro!: exI[of _ "0::nat"])
    qed
  qed
qed

lemma rollback_log: "\<exists>rb. db_log (snd (db_query srv q c)) = db_log c @ [(q, rb)]"
  by (auto simp: db_query_def split: prod.splits)

lemma tx_log:
  assumes "tx srv (run_queries srv inss) c = (r, c')"
  defines "qs \<equiv> map statement (filter (\<lambda>ins. size_Insert ins \<noteq> 0) inss)"
  shows "(r = Inr () \<and> db_log c' = db_log c @ ok ((''BEGIN'', []) # qs @ [(''COMMIT'', [])]))
      \<or> (\<exists>e. r = Inl (Rejected e) \<and> db_log c' = db_log c @ [((''BEGIN'', []), Some e)])
      \<or> (\<exists>e n rb. r = Inl (Rejected e) \<and> n \<le> length qs
            \<and> db_log c' = db_log c @ ok ((''BEGIN'', []) # take n qs)
                 @ [((qs @ [(''COMMIT'', [])]) ! n, Some e), ((''ROLLBACK'', []), rb)])"
proof -
  obtain r0 c0 where b: "db_query srv (''BEGIN'', []) c = (r0, c0)" by fastforce
  from db_query_log[OF b] show ?thesis
  proof (elim disjE conjE exE)
    fix e
    assume "r0 = Inl (Rejected e)" "db_log c0 = db_log c @ [((''BEGIN'', []), Some e)]"
    with assms(1) b show ?thesis by (auto simp: tx_def)
  next
    assume r0: "r0 = Inr ()" and l0: "db_log c0 = db_log c @ [((''BEGIN'', []), None)]"
    obtain r1 c1 where cb: "run_queries srv inss c0 = (r1, c1)" by fastforce
    from run_queries_log[OF cb] have
      "(r1 = Inr () \<and> db_log c1 = db_log c0 @ ok qs)
       \<or> (\<exists>e n. r1 = Inl (Rejected e) \<and> n < length qs
             \<and> db_log c1 = db_log c0 @ ok (take n qs) @ [(qs ! n, Some e)])"
      by (simp add: qs_def Let_def)
    then show ?thesis
    proof (elim disjE conjE exE)
      fix e n
      assume f: "r1 = Inl (Rejected e)" "n < length qs"
        "db_log c1 = db_log c0 @ ok (take n qs) @ [(qs ! n, Some e)]"
      with assms(1) b r0 cb have r: "r = Inl (Rejected e)"
        and c': "c' = snd (db_query srv (''ROLLBACK'', []) c1)"
        by (auto simp: tx_def tx_try_def)
      from rollback_log[of srv "(''ROLLBACK'', [])" c1] c' obtain rb where
        "db_log c' = db_log c1 @ [((''ROLLBACK'', []), rb)]" by auto
      with f l0 r have "r = Inl (Rejected e) \<and> n \<le> length qs
            \<and> db_log c' = db_log c @ ok ((''BEGIN'', []) # take n qs)
                 @ [((qs @ [(''COMMIT'', [])]) ! n, Some e), ((''ROLLBACK'', []), rb)]"
        by (simp add: ok_def nth_append)
      then show ?thesis by blast
    next
      assume s1: "r1 = Inr ()" "db_log c1 = db_log c0 @ ok qs"
      obtain r2 c2 where cm: "db_query srv (''COMMIT'', []) c1 = (r2, c2)" by fastforce
      from db_query_log[OF cm] show ?thesis
      proof (elim disjE conjE exE)
        assume "r2 = Inr ()" "db_log c2 = db_log c1 @ [((''COMMIT'', []), None)]"
        with assms(1) b r0 cb s1 cm l0 show ?thesis
          by (auto simp: tx_def tx_try_def ok_def)
      next
        fix e
        assume f: "r2 = Inl (Rejected e)" "db_log c2 = db_log c1 @ [((''COMMIT'', []), Some e)]"
        with assms(1) b r0 cb s1 cm have r: "r = Inl (Rejected e)"
          and c': "c' = snd (db_query srv (''ROLLBACK'', []) c2)"
          by (auto simp: tx_def tx_try_def)
        from rollback_log[of srv "(''ROLLBACK'', [])" c2] c' obtain rb where
          "db_log c' = db_log c2 @ [((''ROLLBACK'', []), rb)]" by auto
        with f s1 l0 r have "r = Inl (Rejected e) \<and> length qs \<le> length qs
            \<and> db_log c' = db_log c @ ok ((''BEGIN'', []) # take (length qs) qs)
                 @ [((qs @ [(''COMMIT'', [])]) ! length qs, Some e), ((''ROLLBACK'', []), rb)]"
          by (simp add: ok_def)
        then show ?thesis by blast
      qed
    qed
  qed
qed

lemma submit_tx:
  assumes "submit srv s = (r, s')"
  shows "tx srv (run_queries srv (buffers s)) (db s) = (r, db s')"
    and "r = Inl e \<Longrightarrow> buffers s' = buffers s"
proof -
  let ?s1 = "if speed s then s\<lparr>reported := reported s @ [SpeedStart]\<rparr> else s"
  have b1: "buffers ?s1 = buffers s" and d1: "db ?s1 = db s" by (simp_all add: buffers_def)
  obtain r1 c1 where t: "tx srv (run_queries srv (buffers s)) (db s) = (r1, c1)" by fastforce
  with assms b1 d1 have "r = r1 \<and> db s' = c1 \<and> (r = Inl e \<longrightarrow> buffers s' = buffers s)"
    by (cases r1) (auto simp: submit_def Let_def submit_queries_run buffers_def split: if_splits)
  with t show "tx srv (run_queries srv (buffers s)) (db s) = (r, db s')"
    and "r = Inl e \<Longrightarrow> buffers s' = buffers s" by simp_all
qed

lemma size_mono_aligned:
  assumes "aligned b n" "aligned b' n'" "n \<le> n'" "b' = b\<lparr>columns := columns b'\<rparr>"
  shows "size_Insert b \<le> size_Insert b'"
proof -
  from assms(4) have "mapping b' = mapping b"
    by (metis Insert.select_convs(2) Insert.surjective Insert.update_convs(4))
  with assms(1,2) have "keys (columns b') = keys (columns b)" by (simp add: aligned_def)
  then have "columns b' = [] \<longleftrightarrow> columns b = []"
    using map_is_Nil_conv[of fst "columns b"] map_is_Nil_conv[of fst "columns b'"]
    by (simp add: keys_def)
  with size_Insert_aligned[OF assms(1)] size_Insert_aligned[OF assms(2)] assms(3)
  show ?thesis by simp
qed

lemma grows_add: "grows (add row :: ('v Insert, 'e, unit) call)"
  unfolding grows_def well_formed_def
proof (intro allI impI, elim exE)
  fix b :: "'v Insert" and n
  assume a: "aligned b n"
  from aligned_add[OF a, of row] obtain b' where
    b': "(add row b :: ('e thrown + unit) \<times> _) = (Inr (), b')" "aligned b' (Suc n)"
      "b' = b\<lparr>columns := columns b'\<rparr>" by blast
  from size_mono_aligned[OF a b'(2) _ b'(3)] have "size_Insert b \<le> size_Insert b'" by simp
  with b' show "\<exists>b'. (add row b :: ('e thrown + unit) \<times> _) = (Inr (), b')
      \<and> (\<exists>n. aligned b' n) \<and> size_Insert b \<le> size_Insert b'" by blast
qed

lemma grows_addMany: "grows (addMany rows :: ('v Insert, 'e, unit) call)"
  unfolding grows_def well_formed_def
proof (intro allI impI, elim exE)
  fix b :: "'v Insert" and n
  assume a: "aligned b n"
  from aligned_addMany[OF a, of rows] obtain b' where
    b': "(addMany rows b :: ('e thrown + unit) \<times> _) = (Inr (), b')" "aligned b' (n + length rows)"
      "b' = b\<lparr>columns := columns b'\<rparr>" by blast
  from size_mono_aligned[OF a b'(2) _ b'(3)] have "size_Insert b \<le> size_Insert b'" by simp
  with b' show "\<exists>b'. (addMany rows b :: ('e thrown + unit) \<times> _) = (Inr (), b')
      \<and> (\<exists>n. aligned b' n) \<and> size_Insert b \<le> size_Insert b'" by blast
qed

lemma grown_refl: "wf_sink s \<Longrightarrow> grown s s"
  by (simp add: grown_def list_all2_same)

lemma grown_trans: "grown s s1 \<Longrightarrow> grown s1 s2 \<Longrightarrow> grown s s2"
  by (auto simp: grown_def buffers_def)

lemma steady_return: "steady (\<lambda>s. (Inr (), s))"
  by (simp add: steady_def grown_refl)

lemma steady_and_then: "steady f \<Longrightarrow> steady g \<Longrightarrow> steady (and_then f g)"
  unfolding steady_def
proof (intro allI impI)
  fix s :: "('a, 'b, 'c) PostgresSink"
  assume f: "\<forall>s. wf_sink s \<longrightarrow> (\<exists>s'. f s = (Inr (), s') \<and> grown s s')"
    and g: "\<forall>s. wf_sink s \<longrightarrow> (\<exists>s'. g s = (Inr (), s') \<and> grown s s')"
    and w: "wf_sink s"
  from f w obtain s1 where s1: "f s = (Inr (), s1)" "grown s s1" by blast
  then have "wf_sink s1" by (simp add: grown_def)
  with g obtain s2 where s2: "g s1 = (Inr (), s2)" "grown s1 s2" by blast
  from s1 s2 have "and_then f g s = (Inr (), s2)" by (simp add: and_then_def)
  with grown_trans[OF s1(2) s2(2)] show "\<exists>s'. and_then f g s = (Inr (), s') \<and> grown s s'"
    by blast
qed

lemma steady_on:
  assumes "grows f"
  shows "steady (on_metadataInsert f)" "steady (on_headerInsert f)"
    "steady (on_extrinsicInsert f)" "steady (on_callInsert f)"
    "steady (on_eventInsert f)" "steady (on_warningInsert f)"
  using assms
  by (auto simp: steady_def grows_def grown_def wf_sink_def buffers_def
      on_metadataInsert_def on_headerInsert_def on_extrinsicInsert_def on_callInsert_def
      on_eventInsert_def on_warningInsert_def split: prod.splits)

lemma steady_append: "steady (append_block block)"
  unfolding append_block_def
  by (intro steady_and_then steady_on grows_add grows_addMany)
    (auto split: option.splits intro: steady_return steady_on grows_add grows_addMany)

lemma wf_new_PostgresSink: "wf_sink (new_PostgresSink f g d sp pr)"
  by (auto simp: wf_sink_def buffers_def new_PostgresSink_def well_formed_def keys_def
      intro!: exI[of _ 0] aligned_new)

lemma wf_submit: "wf_sink s \<Longrightarrow> wf_sink (snd (submit srv s))"
  by (auto simp: submit_def Let_def wf_sink_def buffers_def well_formed_def
      split: prod.splits sum.splits intro: aligned_clear)

lemma wf_write: "wf_sink s \<Longrightarrow> wf_sink (snd (PostgresSink_write srv b s))"
proof -
  assume w: "wf_sink s"
  with steady_append[of b] obtain s1 where s1: "append_block b s = (Inr (), s1)" "grown s s1"
    unfolding steady_def by blast
  then have "wf_sink s1" by (simp add: grown_def)
  with s1(1) wf_submit[of s1 srv] show ?thesis
    by (simp add: PostgresSink_write_def and_then_def)
qed

lemma submit_begins:
  "\<exists>r rest. db_log (db (snd (submit srv s))) = db_log (db s) @ ((''BEGIN'', []), r) # rest"
proof -
  obtain r s' where sub: "submit srv s = (r, s')" by fastforce
  from tx_log[OF submit_tx(1)[OF sub]] sub show ?thesis
    by (auto simp: ok_def)
qed

text \<open>The example sink, evaluated once.\<close>

lemmas eval_defs = sample_sink_def new_PostgresSink_def sample_block_def sample_row_def empty_db_def
  append_block_def and_then_def on_metadataInsert_def on_headerInsert_def on_extrinsicInsert_def
  on_callInsert_def on_eventInsert_def on_warningInsert_def add_def
  makeColumns_def keys_def get_prop_def cell_def plain_def mapped_def size_Insert_def

lemma new_Insert_sel:
  "mapping (new_Insert t m) = m" "columns (new_Insert t m) = makeColumns m"
  by (simp_all add: new_Insert_def Let_def)

lemma append_sample: "append_block (sample_block l) sample_sink = (Inr (), buffered_sink)"
  unfolding buffered_sink_def by (simp add: eval_defs new_Insert_sel)

lemma last_sample: "block_last (sample_block l) = l"
  by (simp add: sample_block_def)

lemma buffered_sizes:
  "size_Insert (metadataInsert buffered_sink) = 0" "size_Insert (headerInsert buffered_sink) = 1"
  "size_Insert (extrinsicInsert buffered_sink) = 0" "size_Insert (callInsert buffered_sink) = 0"
  "size_Insert (eventInsert buffered_sink) = 2" "size_Insert (warningInsert buffered_sink) = 0"
  unfolding buffered_sink_def by (simp_all add: eval_defs new_Insert_sel)

lemma buffered_rest:
  "db buffered_sink = empty_db" "speed buffered_sink = False" "progress buffered_sink = False"
  unfolding buffered_sink_def by (simp_all add: eval_defs new_Insert_sel)

lemmas submit_defs = submit_def Let_def tx_def tx_try_def submit_queries_def and_then_def query_def
  db_query_def reject_nth_def accept_all_def empty_db_def buffered_sizes buffered_rest

text \<open>
  C6.  In every flush the statements sent are \<^verbatim>\<open>BEGIN\<close>, then the bulk inserts of the
  buffers that are not empty, in the order metadata, block, extrinsic, call, event,
  warning, whatever order the rows were appended in: all of them, and then
  \<^verbatim>\<open>COMMIT\<close> alone, when the flush succeeds; the first \<open>n\<close> of them, and then nothing
  but \<^verbatim>\<open>COMMIT\<close> or \<^verbatim>\<open>ROLLBACK\<close>, when a statement is rejected.  The query of a
  buffer of size 0 sends nothing and returns normally.
\<close>

theorem submit_insert_order:
  fixes s :: "('d, 'v, 'e) PostgresSink"
  shows "(\<exists>new n tail. db_log (db (snd (submit srv s))) = db_log (db s) @ new
       \<and> n \<le> length (pending s)
       \<and> map fst new = (''BEGIN'', []) # take n (pending s) @ tail
       \<and> set tail \<subseteq> {(''COMMIT'', []), (''ROLLBACK'', [])}
       \<and> (fst (submit srv s) = Inr () \<longrightarrow> n = length (pending s) \<and> tail = [(''COMMIT'', [])]))
   \<and> (size_Insert ins = 0 \<longrightarrow> query srv ins c = (Inr (), c))"
proof -
  obtain r s' where sub: "submit srv s = (r, s')" by fastforce
  let ?qs = "pending s"
  let ?B = "(''BEGIN'', []) :: 'v query"
  let ?C = "(''COMMIT'', []) :: 'v query"
  let ?R = "(''ROLLBACK'', []) :: 'v query"
  let ?goal = "\<lambda>new n tail. db_log (db s') = db_log (db s) @ new \<and> n \<le> length ?qs
       \<and> map fst new = ?B # take n ?qs @ tail \<and> set tail \<subseteq> {?C, ?R}
       \<and> (r = Inr () \<longrightarrow> n = length ?qs \<and> tail = [?C])"
  have ex: "?goal new n tail \<Longrightarrow> \<exists>new n tail. ?goal new n tail" for new n tail
    by (rule exI, rule exI, rule exI)
  from tx_log[OF submit_tx(1)[OF sub]] have "\<exists>new n tail. ?goal new n tail"
  proof (elim disjE conjE exE)
    assume "r = Inr ()" "db_log (db s') = db_log (db s) @ ok (?B #
        map statement (filter (\<lambda>ins. size_Insert ins \<noteq> 0) (buffers s)) @ [?C])"
    then have "?goal (ok (?B # ?qs @ [?C])) (length ?qs) [?C]"
      by (simp add: pending_def ok_def comp_def)
    then show ?thesis by (rule ex)
  next
    fix e
    assume "r = Inl (Rejected e)" "db_log (db s') = db_log (db s) @ [(?B, Some e)]"
    then have "?goal [(?B, Some e)] 0 []" by simp
    then show ?thesis by (rule ex)
  next
    fix e n rb
    assume f: "r = Inl (Rejected e)"
      "n \<le> length (map statement (filter (\<lambda>ins. size_Insert ins \<noteq> 0) (buffers s)))"
      "db_log (db s') = db_log (db s) @ ok (?B # take n
          (map statement (filter (\<lambda>ins. size_Insert ins \<noteq> 0) (buffers s))))
         @ [((map statement (filter (\<lambda>ins. size_Insert ins \<noteq> 0) (buffers s)) @ [?C]) ! n, Some e),
            (?R, rb)]"
    then have n: "n \<le> length ?qs"
      and l: "db_log (db s') = db_log (db s) @ ok (?B # take n ?qs)
         @ [((?qs @ [?C]) ! n, Some e), (?R, rb)]"
      by (simp_all add: pending_def)
    show ?thesis
    proof (cases "n < length ?qs")
      case True
      with l f(1) have "?goal (ok (?B # take n ?qs) @ [((?qs @ [?C]) ! n, Some e), (?R, rb)])
          (Suc n) [?R]"
        by (simp add: ok_def comp_def nth_append take_Suc_conv_app_nth)
      then show ?thesis by (rule ex)
    next
      case False
      with n have "n = length ?qs" by simp
      with l f(1) have "?goal (ok (?B # take n ?qs) @ [((?qs @ [?C]) ! n, Some e), (?R, rb)])
          n [?C, ?R]"
        by (simp add: ok_def comp_def)
      then show ?thesis by (rule ex)
    qed
  qed
  with sub show ?thesis by (simp add: query_def)
qed

theorem submit_insert_order_witness:
  "size_Insert (metadataInsert buffered_sink) = 0
   \<and> query accept_all (metadataInsert buffered_sink) empty_db = (Inr (), empty_db)
   \<and> fst (submit accept_all buffered_sink) = Inr ()
   \<and> map fst (db_log (db (snd (submit accept_all buffered_sink)))) =
        [(''BEGIN'', []), statement (headerInsert buffered_sink),
         statement (eventInsert buffered_sink), (''COMMIT'', [])]"
proof -
  have f: "fst (submit accept_all buffered_sink) = Inr ()"
    by (simp add: submit_defs)
  have p: "pending buffered_sink
      = [statement (headerInsert buffered_sink), statement (eventInsert buffered_sink)]"
    by (simp add: pending_def buffers_def buffered_sizes)
  have d: "db_log (db buffered_sink) = []"
    by (simp add: buffered_rest empty_db_def)
  from submit_insert_order[of accept_all buffered_sink "metadataInsert buffered_sink" empty_db]
    f p d buffered_sizes(1)
  show ?thesis by auto
qed

lemma submit_cases:
  fixes s :: "('d, 'v, 'e) PostgresSink"
  assumes "submit srv s = (r, s')"
  shows "db_log (db s') = db_log (db s) @ sent srv s"
    and "(r = Inr () \<and> sent srv s = ok (flush s))
      \<or> (\<exists>e. r = Inl (Rejected e) \<and> sent srv s = [((''BEGIN'', []), Some e)])
      \<or> (\<exists>e n rb. r = Inl (Rejected e) \<and> n \<le> length (pending s)
            \<and> sent srv s = ok ((''BEGIN'', []) # take n (pending s))
                 @ [((pending s @ [(''COMMIT'', [])]) ! n, Some e), ((''ROLLBACK'', []), rb)])"
proof -
  have s: "sent srv s = new" if "db_log (db s') = db_log (db s) @ new" for new
    using that assms by (simp add: sent_def)
  note t = tx_log[OF submit_tx(1)[OF assms], folded pending_def]
  from t show "db_log (db s') = db_log (db s) @ sent srv s"
    by (elim disjE conjE exE) (simp_all add: s)
  from t show "(r = Inr () \<and> sent srv s = ok (flush s))
      \<or> (\<exists>e. r = Inl (Rejected e) \<and> sent srv s = [((''BEGIN'', []), Some e)])
      \<or> (\<exists>e n rb. r = Inl (Rejected e) \<and> n \<le> length (pending s)
            \<and> sent srv s = ok ((''BEGIN'', []) # take n (pending s))
                 @ [((pending s @ [(''COMMIT'', [])]) ! n, Some e), ((''ROLLBACK'', []), rb)])"
  proof (elim disjE conjE exE)
    assume "r = Inr ()" "db_log (db s') = db_log (db s) @ ok ((''BEGIN'', []) # pending s @ [(''COMMIT'', [])])"
    then show ?thesis by (simp add: s flush_def)
  next
    fix e
    assume "r = Inl (Rejected e)" "db_log (db s') = db_log (db s) @ [((''BEGIN'', []), Some e)]"
    then show ?thesis by (simp add: s)
  next
    fix e n rb
    assume "r = Inl (Rejected e)" "n \<le> length (pending s)"
      "db_log (db s') = db_log (db s) @ ok ((''BEGIN'', []) # take n (pending s))
          @ [((pending s @ [(''COMMIT'', [])]) ! n, Some e), ((''ROLLBACK'', []), rb)]"
    then have "r = Inl (Rejected e) \<and> n \<le> length (pending s)
            \<and> sent srv s = ok ((''BEGIN'', []) # take n (pending s))
                 @ [((pending s @ [(''COMMIT'', [])]) ! n, Some e), ((''ROLLBACK'', []), rb)]"
      by (simp add: s)
    then show ?thesis by blast
  qed
qed

lemma answers_append:
  "answers srv d (xs @ ys) = answers srv d xs @ answers srv (after srv d xs) ys"
  by (induction xs arbitrary: d) (auto split: prod.splits)

lemma after_append: "after srv d (xs @ ys) = after srv (after srv d xs) ys"
  by (induction xs arbitrary: d) auto

lemma answers_single: "answers srv d [q] = [fst (srv d q)]"
  by (simp split: prod.splits)

lemma length_answers:"length (answers srv d qs) = length qs"
  by (induction qs arbitrary: d) (auto split: prod.splits)

lemma answers_take: "answers srv d (take k qs) = take k (answers srv d qs)"
proof -
  have "answers srv d qs = answers srv d (take k qs) @ answers srv (after srv d (take k qs)) (drop k qs)"
    using answers_append[of srv d "take k qs" "drop k qs"] by simp
  then show ?thesis by (simp add: length_answers min_def)
qed

lemma reach_refl: "reach srv c c"
  by (simp add: reach_def)

lemma reach_trans: "reach srv c c1 \<Longrightarrow> reach srv c1 c2 \<Longrightarrow> reach srv c c2"
  unfolding reach_def
proof (elim exE conjE)
  fix new1 new2
  assume "db_log c1 = db_log c @ new1" "map snd new1 = answers srv (db_state c) (map fst new1)"
    "db_state c1 = after srv (db_state c) (map fst new1)"
    "db_log c2 = db_log c1 @ new2" "map snd new2 = answers srv (db_state c1) (map fst new2)"
    "db_state c2 = after srv (db_state c1) (map fst new2)"
  then have "db_log c2 = db_log c @ (new1 @ new2)
      \<and> map snd (new1 @ new2) = answers srv (db_state c) (map fst (new1 @ new2))
      \<and> db_state c2 = after srv (db_state c) (map fst (new1 @ new2))"
    by (simp add: answers_append after_append)
  then show "\<exists>new. db_log c2 = db_log c @ new
      \<and> map snd new = answers srv (db_state c) (map fst new)
      \<and> db_state c2 = after srv (db_state c) (map fst new)" by blast
qed

lemma reach_db_query: "reach srv c (snd (db_query srv q c))"
proof -
  obtain reply d where r: "srv (db_state c) q = (reply, d)" by fastforce
  then have "db_log (snd (db_query srv q c)) = db_log c @ [(q, reply)]
      \<and> map snd [(q, reply)] = answers srv (db_state c) (map fst [(q, reply)])
      \<and> db_state (snd (db_query srv q c)) = after srv (db_state c) (map fst [(q, reply)])"
    by (simp add: db_query_def)
  then show ?thesis unfolding reach_def by blast
qed

lemma reach_query: "reach srv c (snd (query srv ins c))"
  by (simp add: query_def reach_refl reach_db_query)

lemma reach_run_queries: "reach srv c (snd (run_queries srv inss c))"
proof (induction inss arbitrary: c)
  case Nil
  show ?case by (simp add: reach_refl)
next
  case (Cons ins rest)
  obtain r c1 where q: "query srv ins c = (r, c1)" by fastforce
  with reach_query[of srv c ins] have 1: "reach srv c c1" by simp
  show ?case
  proof (cases r)
    case (Inl e)
    with q 1 show ?thesis by (simp add: and_then_def)
  next
    case (Inr u)
    with q have "snd (run_queries srv (ins # rest) c) = snd (run_queries srv rest c1)"
      by (simp add: and_then_def)
    with reach_trans[OF 1 Cons.IH[of c1]] show ?thesis by simp
  qed
qed

lemma reach_tx:
  assumes "\<And>c. reach srv c (snd (cb c))"
  shows "reach srv c (snd (tx srv cb c))"
proof -
  obtain r0 c0 where b: "db_query srv (''BEGIN'', []) c = (r0, c0)" by fastforce
  with reach_db_query[of srv c "(''BEGIN'', [])"] have 0: "reach srv c c0" by simp
  obtain r1 c1 where t: "cb c0 = (r1, c1)" by fastforce
  with assms[of c0] have "reach srv c0 c1" by simp
  with 0 have 1: "reach srv c c1" by (rule reach_trans)
  obtain r2 c2 where m: "db_query srv (''COMMIT'', []) c1 = (r2, c2)" by fastforce
  with reach_db_query[of srv c1 "(''COMMIT'', [])"] have "reach srv c1 c2" by simp
  with 1 have 2: "reach srv c c2" by (rule reach_trans)
  have 3: "reach srv c (snd (db_query srv (''ROLLBACK'', []) c1))"
    using 1 reach_db_query by (rule reach_trans)
  have 4: "reach srv c (snd (db_query srv (''ROLLBACK'', []) c2))"
    using 2 reach_db_query by (rule reach_trans)
  from b t m 0 1 2 3 4 show ?thesis
    by (cases r0; cases r1; cases r2) (simp_all add: tx_def tx_try_def)
qed

lemma sent_answers:
  "map snd (sent srv s) = answers srv (db_state (db s)) (map fst (sent srv s))"
proof -
  obtain r s' where sub: "submit srv s = (r, s')" by fastforce
  from submit_tx(1)[OF sub] reach_tx[of srv "run_queries srv (buffers s)" "db s", OF reach_run_queries]
  have "reach srv (db s) (db s')" by simp
  then obtain new where "db_log (db s') = db_log (db s) @ new"
    "map snd new = answers srv (db_state (db s)) (map fst new)"
    unfolding reach_def by blast
  with sub show ?thesis by (simp add: sent_def)
qed

lemma ok_fst: "map fst (ok xs) = xs"
  by (simp add: ok_def comp_def)

lemma ok_snd: "map snd (ok xs) = replicate (length xs) None"
  by (simp add: ok_def comp_def map_replicate_const)

lemma no_rejection: "take k (replicate n None) \<noteq> xs @ [Some e]"
proof
  assume "take k (replicate n None) = xs @ [Some e]"
  then have "Some e \<in> set (take k (replicate n None))" by simp
  then have "Some e \<in> set (replicate n None)" by (rule in_set_takeD)
  then show False by simp
qed

lemma first_rejection:
  assumes "take (Suc m) A = replicate m None @ [Some e]"
    and "take (Suc n) A = replicate n None @ [Some e0]"
  shows "m = n \<and> e = e0"
proof -
  have a: "A ! m = Some e"
    using arg_cong[OF assms(1), of "\<lambda>xs. xs ! m"] by (simp add: nth_append)
  have b: "A ! i = None" if "i < m" for i
    using arg_cong[OF assms(1), of "\<lambda>xs. xs ! i"] that by (simp add: nth_append)
  have c: "A ! n = Some e0"
    using arg_cong[OF assms(2), of "\<lambda>xs. xs ! n"] by (simp add: nth_append)
  have d: "A ! i = None" if "i < n" for i
    using arg_cong[OF assms(2), of "\<lambda>xs. xs ! i"] that by (simp add: nth_append)
  have "m = n" using a b[of n] c d[of m] by (cases m n rule: linorder_cases) auto
  with a c show ?thesis by simp
qed

lemma flush_take:
  "m \<le> length (pending s) \<Longrightarrow>
     take (Suc m) (flush s) = (''BEGIN'', []) # take m (pending s)
     \<and> flush s ! Suc m = (pending s @ [(''COMMIT'', [])]) ! m
     \<and> Suc m < length (flush s)"
  by (simp add: flush_def)

text \<open>
  What the first rejection among the server's answers to the statements of a flush
  entails: the reply in each case of \<open>submit_cases\<close>.
\<close>

lemma submit_answers:
  fixes s :: "('d, 'v, 'e) PostgresSink"
  assumes "submit srv s = (r, s')"
  shows "(r = Inr () \<and> sent srv s = ok (flush s)
          \<and> answers srv (db_state (db s)) (flush s) = replicate (length (flush s)) None)
      \<or> (\<exists>e n rb. r = Inl (Rejected e) \<and> n < length (flush s)
            \<and> answers srv (db_state (db s)) (take (Suc n) (flush s)) = replicate n None @ [Some e]
            \<and> sent srv s = ok (take n (flush s)) @ (flush s ! n, Some e)
                 # (if n = 0 then [] else [((''ROLLBACK'', []), rb)]))"
  using submit_cases(2)[OF assms]
proof (elim disjE conjE exE)
  assume r: "r = Inr ()" and l: "sent srv s = ok (flush s)"
  from sent_answers[of srv s] l
  have "answers srv (db_state (db s)) (flush s) = replicate (length (flush s)) None"
    by (simp add: ok_fst ok_snd)
  with r l show ?thesis by simp
next
  fix e
  assume r: "r = Inl (Rejected e)" and l: "sent srv s = [((''BEGIN'', []), Some e)]"
  from sent_answers[of srv s] l
  have "answers srv (db_state (db s)) (take (Suc 0) (flush s)) = replicate 0 None @ [Some e]"
    by (simp add: flush_def)
  moreover from l have "sent srv s = ok (take 0 (flush s)) @ (flush s ! 0, Some e)
      # (if (0::nat) = 0 then [] else [((''ROLLBACK'', []), None)])"
    by (simp add: flush_def ok_def)
  moreover have "0 < length (flush s)" by (simp add: flush_def)
  ultimately show ?thesis using r by blast
next
  fix e m rb
  assume r: "r = Inl (Rejected e)" and m: "m \<le> length (pending s)"
    and l: "sent srv s = ok ((''BEGIN'', []) # take m (pending s))
         @ [((pending s @ [(''COMMIT'', [])]) ! m, Some e), ((''ROLLBACK'', []), rb)]"
  from flush_take[OF m] have f1: "take (Suc m) (flush s) = (''BEGIN'', []) # take m (pending s)"
    and f2: "flush s ! Suc m = (pending s @ [(''COMMIT'', [])]) ! m"
    and f3: "Suc m < length (flush s)" by simp_all
  from f3 have t2: "take (Suc (Suc m)) (flush s) = take (Suc m) (flush s) @ [flush s ! Suc m]"
    by (simp add: take_Suc_conv_app_nth)
  from f3 have len: "length (take (Suc m) (flush s)) = Suc m" by simp
  have l': "sent srv s = ok (take (Suc m) (flush s)) @ (flush s ! Suc m, Some e)
      # (if Suc m = 0 then [] else [((''ROLLBACK'', []), rb)])"
    unfolding l f1 f2 by simp
  have fs: "map fst (sent srv s) = take (Suc (Suc m)) (flush s) @ [(''ROLLBACK'', [])]"
    unfolding l' t2 by (simp add: ok_fst)
  have sn: "map snd (sent srv s) = (replicate (Suc m) None @ [Some e]) @ [rb]"
    using f3 unfolding l' by (simp add: ok_snd min_def del: replicate_Suc)
  from sent_answers[of srv s] have "(replicate (Suc m) None @ [Some e]) @ [rb]
      = answers srv (db_state (db s)) (take (Suc (Suc m)) (flush s))
        @ [fst (srv (after srv (db_state (db s)) (take (Suc (Suc m)) (flush s))) (''ROLLBACK'', []))]"
    unfolding fs sn answers_append answers_single .
  then have "replicate (Suc m) None @ [Some e]
      = answers srv (db_state (db s)) (take (Suc (Suc m)) (flush s))"
    by (simp only: append1_eq_conv)
  then have "answers srv (db_state (db s)) (take (Suc (Suc m)) (flush s))
      = replicate (Suc m) None @ [Some e]"
    by (rule sym)
  with r l' f3 show ?thesis by blast
qed

lemma numbered_sizes:
  "size_Insert (metadataInsert numbered_sink) = 0" "size_Insert (headerInsert numbered_sink) = 1"
  "size_Insert (extrinsicInsert numbered_sink) = 0" "size_Insert (callInsert numbered_sink) = 0"
  "size_Insert (eventInsert numbered_sink) = 2" "size_Insert (warningInsert numbered_sink) = 0"
  unfolding numbered_sink_def by (simp_all add: eval_defs new_Insert_sel)

lemma numbered_rest:
  "db numbered_sink = numbered_db" "speed numbered_sink = False" "progress numbered_sink = False"
  unfolding numbered_sink_def by (simp_all add: eval_defs new_Insert_sel)

lemma sample_flush:
  "flush buffered_sink = [(''BEGIN'', []), statement (headerInsert buffered_sink),
      statement (eventInsert buffered_sink), (''COMMIT'', [])]"
  "flush numbered_sink = [(''BEGIN'', []), statement (headerInsert numbered_sink),
      statement (eventInsert numbered_sink), (''COMMIT'', [])]"
  "db_state (db buffered_sink) = 0" "db_state (db numbered_sink) = 0"
  by (simp_all add: flush_def pending_def buffers_def buffered_sizes numbered_sizes buffered_rest
      numbered_rest empty_db_def numbered_db_def)

text \<open>
  C1 (as amended).  Number the statements of a flush from 0: \<^verbatim>\<open>BEGIN\<close>, the bulk
  inserts of the buffers that are not empty, \<^verbatim>\<open>COMMIT\<close>.  If the server accepts the
  first \<open>n\<close> of them and rejects the next with \<open>e0\<close>, then \<open>submit\<close> fails with \<open>e0\<close>,
  the six buffers are exactly what they were before, and what was sent is those \<open>n\<close>
  statements, the rejected one and then, unless the rejected one is \<^verbatim>\<open>BEGIN\<close>
  (\<open>n = 0\<close>, nothing more is sent), \<^verbatim>\<open>ROLLBACK\<close> alone, whose reply \<open>rb\<close> changes
  nothing.  If the server accepts them all, \<open>submit\<close> returns normally.  Conversely, a
  \<open>submit\<close> that fails has failed with the first rejection of one of its statements,
  and has left the buffers as they were.  A \<open>write\<close> that fails after its appends
  fails as its flush did.
\<close>

theorem submit_failure_keeps_buffers:
  fixes s :: "('d, 'v, 'e) PostgresSink"
  shows "db_log (db (snd (submit srv s))) = db_log (db s) @ sent srv s
   \<and> (n < length (flush s)
       \<and> answers srv (db_state (db s)) (take (Suc n) (flush s)) = replicate n None @ [Some e0]
      \<longrightarrow> fst (submit srv s) = Inl (Rejected e0)
          \<and> buffers (snd (submit srv s)) = buffers s
          \<and> (\<exists>rb. sent srv s = ok (take n (flush s)) @ (flush s ! n, Some e0)
                # (if n = 0 then [] else [((''ROLLBACK'', []), rb)])))
   \<and> (answers srv (db_state (db s)) (flush s) = replicate (length (flush s)) None
      \<longrightarrow> fst (submit srv s) = Inr () \<and> sent srv s = ok (flush s))
   \<and> (fst (submit srv s) = Inl e
      \<longrightarrow> buffers (snd (submit srv s)) = buffers s
          \<and> (\<exists>m e1. e = Rejected e1 \<and> m < length (flush s)
                \<and> answers srv (db_state (db s)) (take (Suc m) (flush s))
                    = replicate m None @ [Some e1]))
   \<and> (append_block block s0 = (Inr (), s) \<and> PostgresSink_write srv block s0 = (Inl e, s')
      \<longrightarrow> submit srv s = (Inl e, s'))"
proof -
  obtain r s1 where sub: "submit srv s = (r, s1)" by fastforce
  let ?A = "answers srv (db_state (db s)) (flush s)"
  note c = submit_answers[OF sub]
  have keep: "buffers s1 = buffers s" if "r = Inl x" for x
    using submit_tx(2)[OF sub that] .
  have fwd: "r = Inl (Rejected e0) \<and> buffers s1 = buffers s
          \<and> (\<exists>rb. sent srv s = ok (take n (flush s)) @ (flush s ! n, Some e0)
                # (if n = 0 then [] else [((''ROLLBACK'', []), rb)]))"
    if h: "n < length (flush s)"
      "answers srv (db_state (db s)) (take (Suc n) (flush s)) = replicate n None @ [Some e0]"
    using c
  proof (elim disjE conjE exE)
    assume "?A = replicate (length (flush s)) None"
    with h(2) have "take (Suc n) (replicate (length (flush s)) None) = replicate n None @ [Some e0]"
      by (simp only: answers_take)
    with no_rejection show ?thesis by (rule notE)
  next
    fix x m rb
    assume r: "r = Inl (Rejected x)" and "m < length (flush s)"
      and a: "answers srv (db_state (db s)) (take (Suc m) (flush s)) = replicate m None @ [Some x]"
      and l: "sent srv s = ok (take m (flush s)) @ (flush s ! m, Some x)
                 # (if m = 0 then [] else [((''ROLLBACK'', []), rb)])"
    from a h(2) have "take (Suc m) ?A = replicate m None @ [Some x]"
      "take (Suc n) ?A = replicate n None @ [Some e0]"
      by (simp_all add: answers_take)
    from first_rejection[OF this] have "m = n" "x = e0" by simp_all
    with r l keep[OF r] show ?thesis by blast
  qed
  have succ: "r = Inr () \<and> sent srv s = ok (flush s)"
    if h: "?A = replicate (length (flush s)) None"
    using c
  proof (elim disjE conjE exE)
    fix x m rb
    assume "m < length (flush s)"
      and a: "answers srv (db_state (db s)) (take (Suc m) (flush s)) = replicate m None @ [Some x]"
    with h have "take (Suc m) (replicate (length (flush s)) None) = replicate m None @ [Some x]"
      by (simp only: answers_take)
    with no_rejection show ?thesis by (rule notE)
  qed simp
  have bwd: "buffers s1 = buffers s
          \<and> (\<exists>m e1. e = Rejected e1 \<and> m < length (flush s)
                \<and> answers srv (db_state (db s)) (take (Suc m) (flush s))
                    = replicate m None @ [Some e1])"
    if r: "r = Inl e"
    using c r keep[OF r] by (elim disjE conjE exE) (simp, blast)
  have wr: "submit srv s = (Inl e, s')"
    if "append_block block s0 = (Inr (), s)" "PostgresSink_write srv block s0 = (Inl e, s')"
    using that by (auto simp: PostgresSink_write_def and_then_def split: if_splits)
  from submit_cases(1)[OF sub] fwd succ bwd wr show ?thesis unfolding sub by simp
qed

theorem submit_failure_keeps_buffers_witness:
  "answers (reject_nth 1) 0 [(''BEGIN'', []), statement (headerInsert buffered_sink)]
     = [None, Some ()]
   \<and> fst (submit (reject_nth 1) buffered_sink) = Inl (Rejected ())
   \<and> buffers (snd (submit (reject_nth 1) buffered_sink)) = buffers buffered_sink
   \<and> (\<exists>rb. sent (reject_nth 1) buffered_sink
        = [((''BEGIN'', []), None), (statement (headerInsert buffered_sink), Some ()),
           ((''ROLLBACK'', []), rb)])
   \<and> (\<exists>m e1. m < length (flush buffered_sink)
          \<and> answers (reject_nth 1) (db_state (db buffered_sink)) (take (Suc m) (flush buffered_sink))
              = replicate m None @ [Some e1])
   \<and> answers (reject_nth 3) 0 (flush buffered_sink) = [None, None, None, Some ()]
   \<and> fst (submit (reject_nth 3) buffered_sink) = Inl (Rejected ())
   \<and> buffers (snd (submit (reject_nth 3) buffered_sink)) = buffers buffered_sink
   \<and> size_Insert (headerInsert (snd (submit (reject_nth 3) buffered_sink))) = 1
   \<and> (\<exists>rb. sent (reject_nth 3) buffered_sink
        = [((''BEGIN'', []), None), (statement (headerInsert buffered_sink), None),
           (statement (eventInsert buffered_sink), None), ((''COMMIT'', []), Some ()),
           ((''ROLLBACK'', []), rb)])
   \<and> answers (reject_from 2) 0 (flush numbered_sink) = [None, None, Some 2, Some 3]
   \<and> fst (submit (reject_from 2) numbered_sink) = Inl (Rejected 2)
   \<and> buffers (snd (submit (reject_from 2) numbered_sink)) = buffers numbered_sink
   \<and> sent (reject_from 2) numbered_sink
        = [((''BEGIN'', []), None), (statement (headerInsert numbered_sink), None),
           (statement (eventInsert numbered_sink), Some 2), ((''ROLLBACK'', []), Some 3)]
   \<and> answers accept_all 0 (flush buffered_sink) = [None, None, None, None]
   \<and> fst (submit accept_all buffered_sink) = Inr ()
   \<and> sent accept_all buffered_sink = ok (flush buffered_sink)
   \<and> append_block (sample_block True) sample_sink = (Inr (), buffered_sink)
   \<and> fst (PostgresSink_write (reject_nth 1) (sample_block True) sample_sink) = Inl (Rejected ())
   \<and> snd (PostgresSink_write (reject_nth 1) (sample_block True) sample_sink)
       = snd (submit (reject_nth 1) buffered_sink)"
proof -
  let ?R = "(''ROLLBACK'', []) :: string query"
  have a1: "answers (reject_nth 1) 0 [(''BEGIN'', []), statement (headerInsert buffered_sink)]
      = [None, Some ()]"
    and a3: "answers (reject_nth 3) 0 (flush buffered_sink) = [None, None, None, Some ()]"
    and a2: "answers (reject_from 2) 0 (flush numbered_sink) = [None, None, Some 2, Some 3]"
    and a0: "answers accept_all 0 (flush buffered_sink) = [None, None, None, None]"
    by (simp_all add: sample_flush reject_nth_def reject_from_def accept_all_def)
  have h1: "1 < length (flush buffered_sink)
      \<and> answers (reject_nth 1) (db_state (db buffered_sink)) (take (Suc 1) (flush buffered_sink))
          = replicate 1 None @ [Some ()]"
    and h3: "3 < length (flush buffered_sink)
      \<and> answers (reject_nth 3) (db_state (db buffered_sink)) (take (Suc 3) (flush buffered_sink))
          = replicate 3 None @ [Some ()]"
    and h2: "2 < length (flush numbered_sink)
      \<and> answers (reject_from 2) (db_state (db numbered_sink)) (take (Suc 2) (flush numbered_sink))
          = replicate 2 None @ [Some 2]"
    and h0: "answers accept_all (db_state (db buffered_sink)) (flush buffered_sink)
          = replicate (length (flush buffered_sink)) None"
    by (simp_all add: sample_flush reject_nth_def reject_from_def accept_all_def eval_nat_numeral)
  note t1 = submit_failure_keeps_buffers[where srv = "reject_nth 1" and s = buffered_sink
      and n = 1 and ?e0.0 = "()" and e = "Rejected ()" and block = "sample_block True"
      and ?s0.0 = sample_sink
      and s' = "snd (PostgresSink_write (reject_nth 1) (sample_block True) sample_sink)"]
  note t3 = submit_failure_keeps_buffers[where srv = "reject_nth 3" and s = buffered_sink
      and n = 3 and ?e0.0 = "()" and e = "Rejected ()" and block = "sample_block True"
      and ?s0.0 = sample_sink and s' = buffered_sink]
  note t2 = submit_failure_keeps_buffers[where srv = "reject_from 2" and s = numbered_sink
      and n = 2 and ?e0.0 = 2 and e = "Rejected 2" and block = "sample_block True"
      and ?s0.0 = numbered_sink and s' = numbered_sink]
  note t0 = submit_failure_keeps_buffers[where srv = accept_all and s = buffered_sink
      and n = 0 and ?e0.0 = "()" and e = "Rejected ()" and block = "sample_block True"
      and ?s0.0 = sample_sink and s' = buffered_sink]
  from t1 h1 have "fst (submit (reject_nth 1) buffered_sink) = Inl (Rejected ())
      \<and> buffers (snd (submit (reject_nth 1) buffered_sink)) = buffers buffered_sink
      \<and> (\<exists>rb. sent (reject_nth 1) buffered_sink
            = ok (take 1 (flush buffered_sink)) @ (flush buffered_sink ! 1, Some ())
                # (if (1::nat) = 0 then [] else [(?R, rb)]))"
    by blast
  then have r1: "fst (submit (reject_nth 1) buffered_sink) = Inl (Rejected ())"
    "buffers (snd (submit (reject_nth 1) buffered_sink)) = buffers buffered_sink"
    "\<exists>rb. sent (reject_nth 1) buffered_sink
        = [((''BEGIN'', []), None), (statement (headerInsert buffered_sink), Some ()), (?R, rb)]"
    by (simp_all add: sample_flush ok_def)
  from t3 h3 have "fst (submit (reject_nth 3) buffered_sink) = Inl (Rejected ())
      \<and> buffers (snd (submit (reject_nth 3) buffered_sink)) = buffers buffered_sink
      \<and> (\<exists>rb. sent (reject_nth 3) buffered_sink
            = ok (take 3 (flush buffered_sink)) @ (flush buffered_sink ! 3, Some ())
                # (if (3::nat) = 0 then [] else [(?R, rb)]))"
    by blast
  then have r3: "fst (submit (reject_nth 3) buffered_sink) = Inl (Rejected ())"
    "buffers (snd (submit (reject_nth 3) buffered_sink)) = buffers buffered_sink"
    "\<exists>rb. sent (reject_nth 3) buffered_sink
        = [((''BEGIN'', []), None), (statement (headerInsert buffered_sink), None),
           (statement (eventInsert buffered_sink), None), ((''COMMIT'', []), Some ()), (?R, rb)]"
    by (simp_all add: sample_flush ok_def eval_nat_numeral)
  from t2 h2 have "fst (submit (reject_from 2) numbered_sink) = Inl (Rejected 2)
      \<and> buffers (snd (submit (reject_from 2) numbered_sink)) = buffers numbered_sink
      \<and> (\<exists>rb. sent (reject_from 2) numbered_sink
            = ok (take 2 (flush numbered_sink)) @ (flush numbered_sink ! 2, Some 2)
                # (if (2::nat) = 0 then [] else [(?R, rb)]))"
    by blast
  then have r2: "fst (submit (reject_from 2) numbered_sink) = Inl (Rejected 2)"
    "buffers (snd (submit (reject_from 2) numbered_sink)) = buffers numbered_sink"
    "\<exists>rb. sent (reject_from 2) numbered_sink
        = [((''BEGIN'', []), None), (statement (headerInsert numbered_sink), None),
           (statement (eventInsert numbered_sink), Some 2), (?R, rb)]"
    by (simp_all add: sample_flush ok_def eval_nat_numeral)
  from r2(3) obtain rb where l2: "sent (reject_from 2) numbered_sink
        = [((''BEGIN'', []), None), (statement (headerInsert numbered_sink), None),
           (statement (eventInsert numbered_sink), Some 2), (?R, rb)]" by blast
  from sent_answers[of "reject_from 2" numbered_sink] l2 have "rb = Some 3"
    by (simp add: sample_flush reject_from_def)
  with l2 have s2: "sent (reject_from 2) numbered_sink
        = [((''BEGIN'', []), None), (statement (headerInsert numbered_sink), None),
           (statement (eventInsert numbered_sink), Some 2), (?R, Some 3)]" by simp
  from t0 h0 have r0: "fst (submit accept_all buffered_sink) = Inr ()"
    "sent accept_all buffered_sink = ok (flush buffered_sink)"
    by blast+
  from r3(2) have z: "size_Insert (headerInsert (snd (submit (reject_nth 3) buffered_sink))) = 1"
    by (simp add: buffers_def buffered_sizes)
  have a: "append_block (sample_block True) sample_sink = (Inr (), buffered_sink)"
    by (rule append_sample)
  have fw: "fst (PostgresSink_write (reject_nth 1) (sample_block True) sample_sink) = Inl (Rejected ())"
    using r1(1) by (simp add: PostgresSink_write_def and_then_def a last_sample)
  then have "PostgresSink_write (reject_nth 1) (sample_block True) sample_sink
      = (Inl (Rejected ()), snd (PostgresSink_write (reject_nth 1) (sample_block True) sample_sink))"
    by (simp add: prod_eq_iff)
  with t1 a have "submit (reject_nth 1) buffered_sink
      = (Inl (Rejected ()), snd (PostgresSink_write (reject_nth 1) (sample_block True) sample_sink))"
    by blast
  then have w: "snd (PostgresSink_write (reject_nth 1) (sample_block True) sample_sink)
       = snd (submit (reject_nth 1) buffered_sink)" by simp
  from t1 r1(1) have b1: "\<exists>m e1. m < length (flush buffered_sink)
      \<and> answers (reject_nth 1) (db_state (db buffered_sink)) (take (Suc m) (flush buffered_sink))
          = replicate m None @ [Some e1]"
    by blast
  from a1 a3 a2 a0 r1 r3 s2 r2(1,2) r0 z a fw w have rest: "answers (reject_nth 1) 0 [(''BEGIN'', []), statement (headerInsert buffered_sink)]
     = [None, Some ()]
   \<and> fst (submit (reject_nth 1) buffered_sink) = Inl (Rejected ())
   \<and> buffers (snd (submit (reject_nth 1) buffered_sink)) = buffers buffered_sink
   \<and> (\<exists>rb. sent (reject_nth 1) buffered_sink
        = [((''BEGIN'', []), None), (statement (headerInsert buffered_sink), Some ()),
           ((''ROLLBACK'', []), rb)])"
    by simp
  from a3 a2 a0 r3 s2 r2(1,2) r0 z a fw w b1 rest show ?thesis by simp
qed

text \<open>
  C1, the claim as written: a rollback is attempted when any step of the flush fails,
  \<^verbatim>\<open>BEGIN\<close> included.  \<^verbatim>\<open>BEGIN\<close> is sent before the \<^verbatim>\<open>try\<close> block: when the
  database rejects it, the flush fails and \<^verbatim>\<open>BEGIN\<close> is the only statement sent.
\<close>

theorem submit_begin_failure_counterexample:
  "fst (submit (reject_nth 0) buffered_sink) = Inl (Rejected ())
   \<and> db_log (db (snd (submit (reject_nth 0) buffered_sink))) = [((''BEGIN'', []), Some ())]"
  by (simp add: submit_defs)

lemma appended_Nil: "appended [] ins = ins"
proof -
  have "map (\<lambda>(name, col). (name, case get_prop (mapping ins) name of None \<Rightarrow> col
      | Some def \<Rightarrow> col @ map (\<lambda>row. cell def row name) [])) (columns ins) = columns ins"
    by (intro map_idI) (auto split: option.splits)
  then show ?thesis by (simp add: appended_def)
qed

lemma appended_appended: "appended ys (appended xs ins) = appended (xs @ ys) ins"
proof -
  have "map (\<lambda>(name, col). (name, case get_prop (mapping ins) name of None \<Rightarrow> col
            | Some def \<Rightarrow> col @ map (\<lambda>row. cell def row name) ys))
          (map (\<lambda>(name, col). (name, case get_prop (mapping ins) name of None \<Rightarrow> col
            | Some def \<Rightarrow> col @ map (\<lambda>row. cell def row name) xs)) cols)
      = map (\<lambda>(name, col). (name, case get_prop (mapping ins) name of None \<Rightarrow> col
            | Some def \<Rightarrow> col @ map (\<lambda>row. cell def row name) (xs @ ys))) cols" for cols
    by (induction cols) (auto split: option.splits)
  then show ?thesis by (simp add: appended_def del: map_map)
qed

lemma appended_fields:
  "mapping (appended rows ins) = mapping ins" "sql (appended rows ins) = sql ins"
  "table (appended rows ins) = table ins" "keys (columns (appended rows ins)) = keys (columns ins)"
  "columns (appended rows ins) = [] \<longleftrightarrow> columns ins = []"
  by (auto simp: appended_def keys_def)

lemma get_prop_appended:
  "get_prop (columns (appended rows ins)) k =
     map_option (\<lambda>col. case get_prop (mapping ins) k of None \<Rightarrow> col
        | Some def \<Rightarrow> col @ map (\<lambda>row. cell def row k) rows) (get_prop (columns ins) k)"
proof -
  have "map_of (map (\<lambda>(name, col). (name, f name col)) cols) k = map_option (f k) (map_of cols k)"
    for f :: "string \<Rightarrow> 'a list \<Rightarrow> 'a list" and cols
    by (induction cols) auto
  then show ?thesis by (simp add: appended_def get_prop_def)
qed

lemma obj_eqI:
  assumes "keys xs = keys ys" "distinct (keys xs)"
    and "\<And>k. k \<in> set (keys xs) \<Longrightarrow> get_prop xs k = get_prop ys k"
  shows "xs = ys"
proof -
  from assms(1) have "length xs = length ys"
    unfolding keys_def by (rule map_eq_imp_length_eq)
  then show ?thesis
    using assms unfolding keys_def get_prop_def
  proof (induction xs ys rule: list_induct2)
    case Nil
    show ?case by simp
  next
    case (Cons x xs y ys)
    obtain k v where x: "x = (k, v)" by (cases x)
    obtain k' v' where y: "y = (k', v')" by (cases y)
    from Cons.prems(1) x y have kk: "k' = k" and t: "map fst xs = map fst ys" by simp_all
    from Cons.prems(2) x have nk: "k \<notin> fst ` set xs" and d: "distinct (map fst xs)" by simp_all
    from Cons.prems(3)[of k] x y kk have vv: "v' = v" by simp
    have "map_of xs j = map_of ys j" if "j \<in> set (map fst xs)" for j
    proof -
      from that nk have "j \<noteq> k" by auto
      with Cons.prems(3)[of j] that x y kk show ?thesis by simp
    qed
    from Cons.IH[OF t d this] x y kk vv show ?case by simp
  qed
qed

lemma add_appended:
  assumes "aligned b n"
  shows "(add row b :: ('e thrown + unit) \<times> _) = (Inr (), appended [row] b)"
    and "aligned (appended [row] b) (Suc n)"
proof -
  from aligned_add[OF assms, of row] obtain b' where
    b': "(add row b :: ('e thrown + unit) \<times> _) = (Inr (), b')" "aligned b' (Suc n)"
      "b' = b\<lparr>columns := columns b'\<rparr>"
      "\<And>name def. get_prop (mapping b) name = Some def \<Longrightarrow>
         (\<exists>col. get_prop (columns b) name = Some col
            \<and> get_prop (columns b') name = Some (col @ [cell def row name]))"
    by blast
  from b'(3) have m: "mapping b' = mapping b"
    by (metis Insert.select_convs(2) Insert.surjective Insert.update_convs(4))
  from assms b'(2) m have k: "keys (columns b') = keys (columns b)" "distinct (keys (columns b'))"
    "keys (columns b) = keys (mapping b)"
    by (simp_all add: aligned_def)
  have "columns b' = columns (appended [row] b)"
  proof (rule obj_eqI)
    show "keys (columns b') = keys (columns (appended [row] b))" using k by (simp add: appended_fields)
    show "distinct (keys (columns b'))" by (rule k(2))
    fix name assume "name \<in> set (keys (columns b'))"
    with k obtain def where d: "get_prop (mapping b) name = Some def"
      using get_prop_keys[of "mapping b" name] by auto
    from b'(4)[OF d] d show "get_prop (columns b') name = get_prop (columns (appended [row] b)) name"
      by (auto simp: get_prop_appended)
  qed
  with b'(3) have "b' = appended [row] b"
    by (simp add: appended_def)
  with b'(1,2) show "(add row b :: ('e thrown + unit) \<times> _) = (Inr (), appended [row] b)"
    and "aligned (appended [row] b) (Suc n)" by simp_all
qed

lemma addMany_appended:
  "aligned b n \<Longrightarrow> (addMany rows b :: ('e thrown + unit) \<times> _) = (Inr (), appended rows b)"
proof (induction rows arbitrary: b n)
  case Nil
  show ?case by (simp add: appended_Nil)
next
  case (Cons r rows)
  have a1: "(add r b :: ('e thrown + unit) \<times> _) = (Inr (), appended [r] b)"
    by (rule add_appended(1)[OF Cons.prems])
  have "(addMany rows (appended [r] b) :: ('e thrown + unit) \<times> _)
      = (Inr (), appended rows (appended [r] b))"
    by (rule Cons.IH[OF add_appended(2)[OF Cons.prems]])
  with a1 show ?case by (simp add: appended_appended)
qed

lemma aligned_appended:
  assumes "aligned b n"
  shows "aligned (appended rows b) (n + length rows)"
proof -
  from aligned_addMany[OF assms, of rows] obtain b' where
    "(addMany rows b :: (unit thrown + unit) \<times> _) = (Inr (), b')" "aligned b' (n + length rows)"
    by blast
  moreover have "(addMany rows b :: (unit thrown + unit) \<times> _) = (Inr (), appended rows b)"
    by (rule addMany_appended[OF assms])
  ultimately show ?thesis by simp
qed

lemma size_appended:
  assumes "well_formed b"
  shows "size_Insert b \<le> size_Insert (appended rows b)"
    and "columns b \<noteq> [] \<Longrightarrow> size_Insert (appended rows b) = size_Insert b + length rows"
proof -
  from assms obtain n where n: "aligned b n" by (auto simp: well_formed_def)
  from size_Insert_aligned[OF n] size_Insert_aligned[OF aligned_appended[OF n, of rows]]
  show "size_Insert b \<le> size_Insert (appended rows b)"
    and "columns b \<noteq> [] \<Longrightarrow> size_Insert (appended rows b) = size_Insert b + length rows"
    by (simp_all add: appended_fields)
qed

lemma well_formed_appended: "well_formed b \<Longrightarrow> well_formed (appended rows b)"
  using aligned_appended by (auto simp: well_formed_def)

lemma on_appended:
  fixes s :: "('d, 'v, 'e) PostgresSink"
  shows "well_formed (metadataInsert s) \<Longrightarrow>
      on_metadataInsert (add row) s = (Inr (), s\<lparr>metadataInsert := appended [row] (metadataInsert s)\<rparr>)"
    and "well_formed (headerInsert s) \<Longrightarrow>
      on_headerInsert (add row) s = (Inr (), s\<lparr>headerInsert := appended [row] (headerInsert s)\<rparr>)"
    and "well_formed (extrinsicInsert s) \<Longrightarrow>
      on_extrinsicInsert (addMany rows) s = (Inr (), s\<lparr>extrinsicInsert := appended rows (extrinsicInsert s)\<rparr>)"
    and "well_formed (callInsert s) \<Longrightarrow>
      on_callInsert (addMany rows) s = (Inr (), s\<lparr>callInsert := appended rows (callInsert s)\<rparr>)"
    and "well_formed (eventInsert s) \<Longrightarrow>
      on_eventInsert (addMany rows) s = (Inr (), s\<lparr>eventInsert := appended rows (eventInsert s)\<rparr>)"
    and "well_formed (warningInsert s) \<Longrightarrow>
      on_warningInsert (addMany rows) s = (Inr (), s\<lparr>warningInsert := appended rows (warningInsert s)\<rparr>)"
  by (auto simp: well_formed_def on_metadataInsert_def on_headerInsert_def on_extrinsicInsert_def
      on_callInsert_def on_eventInsert_def on_warningInsert_def add_appended addMany_appended)

lemma append_block_with:
  fixes s :: "('d, 'v, 'e) PostgresSink"
  assumes "wf_sink s"
  shows "append_block block s = (Inr (), with_blocks [block] s)"
proof -
  from assms have w: "well_formed (metadataInsert s)" "well_formed (headerInsert s)"
    "well_formed (extrinsicInsert s)" "well_formed (callInsert s)" "well_formed (eventInsert s)"
    "well_formed (warningInsert s)"
    by (simp_all add: wf_sink_def buffers_def)
  show ?thesis
    by (cases "block_metadata block"; cases "block_warnings block")
      (simp_all add: append_block_def and_then_def on_appended w with_blocks_def metadata_rows_def
        warning_rows_def appended_Nil)
qed

lemma with_blocks_Nil: "with_blocks [] s = s"
  by (simp add: with_blocks_def appended_Nil)

lemma with_blocks_append: "with_blocks cs (with_blocks bs s) = with_blocks (bs @ cs) s"
  by (simp add: with_blocks_def appended_appended)

lemma with_blocks_fields:
  "db (with_blocks bs s) = db s" "reported (with_blocks bs s) = reported s"
  "speed (with_blocks bs s) = speed s" "progress (with_blocks bs s) = progress s"
  by (simp_all add: with_blocks_def)

lemma wf_with_blocks: "wf_sink s \<Longrightarrow> wf_sink (with_blocks bs s)"
  by (simp add: wf_sink_def buffers_def with_blocks_def well_formed_appended)

lemma writes_with_blocks:
  "wf_sink s \<Longrightarrow> no_trigger srv bs s \<Longrightarrow>
     writes srv bs s = (replicate (length bs) (Inr ()), with_blocks bs s)"
proof (induction bs arbitrary: s)
  case Nil
  show ?case by (simp add: with_blocks_Nil)
next
  case (Cons b bs)
  from Cons.prems have w: "PostgresSink_write srv b s = (Inr (), with_blocks [b] s)"
    by (simp add: PostgresSink_write_def and_then_def append_block_with)
  with Cons.prems(2) have "no_trigger srv bs (with_blocks [b] s)" by simp
  from Cons.IH[OF wf_with_blocks[OF Cons.prems(1)] this] w show ?case
    by (simp add: with_blocks_append)
qed

lemma no_trigger_count:
  "wf_sink s \<Longrightarrow> columns (headerInsert s) \<noteq> [] \<Longrightarrow> \<forall>b \<in> set bs. \<not> block_last b
     \<Longrightarrow> size_Insert (headerInsert s) + length bs \<le> 20 \<Longrightarrow> no_trigger srv bs s"
proof (induction bs arbitrary: s)
  case Nil
  show ?case by simp
next
  case (Cons b bs)
  let ?s1 = "with_blocks [b] s"
  from Cons.prems(1) have wh: "well_formed (headerInsert s)" by (simp add: wf_sink_def buffers_def)
  have h: "headerInsert ?s1 = appended [block_header b] (headerInsert s)"
    by (simp add: with_blocks_def)
  from size_appended(2)[OF wh Cons.prems(2), of "[block_header b]"] h
  have sz: "size_Insert (headerInsert ?s1) = Suc (size_Insert (headerInsert s))" by simp
  from Cons.prems sz have w: "PostgresSink_write srv b s = (Inr (), ?s1)"
    by (simp add: PostgresSink_write_def and_then_def append_block_with)
  have "no_trigger srv bs ?s1"
    using Cons.prems sz h by (intro Cons.IH wf_with_blocks) (simp_all add: appended_fields)
  with Cons.prems sz w show ?case by (simp add: append_block_with)
qed


lemma sample_header:
  "columns (headerInsert sample_sink) \<noteq> []" "size_Insert (headerInsert sample_sink) = 0"
  "db sample_sink = empty_db"
  by (simp_all add: eval_defs new_Insert_sel)

lemma sample_columns:
  "columns (headerInsert (with_blocks [sample_block False] sample_sink))
     = [(''id'', [''id'']), (''height'', [''height'']), (''hash'', [''hash'']),
        (''parent_hash'', [''parent_hash'']), (''timestamp'', [''timestamp'']),
        (''spec_version'', [''spec_version''])]"
  "columns (eventInsert (with_blocks [sample_block False] sample_sink))
     = [(''id'', [''id'', ''id'']), (''block_id'', [''block_id'', ''block_id'']),
        (''phase'', [''phase'', ''phase'']),
        (''index_in_block'', [''index_in_block'', ''index_in_block'']),
        (''name'', [''name'', ''name'']), (''extrinsic_id'', [''extrinsic_id'', ''extrinsic_id'']),
        (''call_id'', [''call_id'', ''call_id'']), (''args'', [''args'', ''args''])]"
  "columns (warningInsert (with_blocks [sample_block False] sample_sink))
     = [(''block_id'', []), (''message'', [])]"
  by (simp_all add: with_blocks_def appended_def warning_rows_def eval_defs new_Insert_sel)


text \<open>
  C2.  From a well-formed sink (a new sink is one, and \<open>write\<close> keeps it so): over a
  sequence of \<open>write\<close> calls none of which has a block marked \<open>last\<close> or leaves more
  than 20 rows in the header buffer after its appends, every call returns normally and
  the sink is then the one before with the rows of the blocks appended to its buffers:
  nothing was sent to the database, nothing was reported, and no buffer got smaller.
  Appending rows to a well-formed buffer that has columns adds their number to its
  size.  A \<open>write\<close> whose block is marked \<open>last\<close>, or that leaves more than 20 rows in
  the header buffer, runs \<open>submit\<close> on the sink its appends left: \<^verbatim>\<open>BEGIN\<close> is sent.
  Any other \<open>write\<close> returns after its appends.
\<close>

theorem write_flush_policy:
  fixes s :: "('d, 'v, 'e) PostgresSink"
  assumes "wf_sink s"
  shows "(no_trigger srv bs s \<longrightarrow>
            writes srv bs s = (replicate (length bs) (Inr ()), with_blocks bs s)
            \<and> db (with_blocks bs s) = db s \<and> reported (with_blocks bs s) = reported s
            \<and> wf_sink (with_blocks bs s)
            \<and> size_Insert (metadataInsert s) \<le> size_Insert (metadataInsert (with_blocks bs s))
            \<and> size_Insert (headerInsert s) \<le> size_Insert (headerInsert (with_blocks bs s))
            \<and> size_Insert (extrinsicInsert s) \<le> size_Insert (extrinsicInsert (with_blocks bs s))
            \<and> size_Insert (callInsert s) \<le> size_Insert (callInsert (with_blocks bs s))
            \<and> size_Insert (eventInsert s) \<le> size_Insert (eventInsert (with_blocks bs s))
            \<and> size_Insert (warningInsert s) \<le> size_Insert (warningInsert (with_blocks bs s)))
     \<and> (well_formed ins \<longrightarrow>
            size_Insert ins \<le> size_Insert (appended rows ins)
            \<and> (columns ins \<noteq> [] \<longrightarrow>
                  size_Insert (appended rows ins) = size_Insert ins + length rows))
     \<and> append_block b s = (Inr (), with_blocks [b] s)
     \<and> (block_last b \<or> 20 < size_Insert (headerInsert (with_blocks [b] s)) \<longrightarrow>
            PostgresSink_write srv b s = submit srv (with_blocks [b] s)
            \<and> (\<exists>r rest. db_log (db (snd (PostgresSink_write srv b s)))
                  = db_log (db s) @ ((''BEGIN'', []), r) # rest))
     \<and> (\<not> block_last b \<and> size_Insert (headerInsert (with_blocks [b] s)) \<le> 20 \<longrightarrow>
            PostgresSink_write srv b s = (Inr (), with_blocks [b] s))
     \<and> wf_sink (snd (PostgresSink_write srv b s))"
proof -
  from assms have w: "well_formed (metadataInsert s)" "well_formed (headerInsert s)"
    "well_formed (extrinsicInsert s)" "well_formed (callInsert s)" "well_formed (eventInsert s)"
    "well_formed (warningInsert s)"
    by (simp_all add: wf_sink_def buffers_def)
  have sz: "size_Insert (metadataInsert s) \<le> size_Insert (metadataInsert (with_blocks bs s))"
    "size_Insert (headerInsert s) \<le> size_Insert (headerInsert (with_blocks bs s))"
    "size_Insert (extrinsicInsert s) \<le> size_Insert (extrinsicInsert (with_blocks bs s))"
    "size_Insert (callInsert s) \<le> size_Insert (callInsert (with_blocks bs s))"
    "size_Insert (eventInsert s) \<le> size_Insert (eventInsert (with_blocks bs s))"
    "size_Insert (warningInsert s) \<le> size_Insert (warningInsert (with_blocks bs s))"
    using w by (simp_all add: with_blocks_def size_appended(1))
  have p1: "writes srv bs s = (replicate (length bs) (Inr ()), with_blocks bs s)"
    if "no_trigger srv bs s"
    using assms that by (rule writes_with_blocks)
  have p2: "well_formed ins \<longrightarrow>
            size_Insert ins \<le> size_Insert (appended rows ins)
            \<and> (columns ins \<noteq> [] \<longrightarrow>
                  size_Insert (appended rows ins) = size_Insert ins + length rows)"
    using size_appended[of ins rows] by simp
  have a: "append_block b s = (Inr (), with_blocks [b] s)"
    using assms by (rule append_block_with)
  have p3: "PostgresSink_write srv b s = submit srv (with_blocks [b] s)
      \<and> (\<exists>r rest. db_log (db (snd (PostgresSink_write srv b s)))
            = db_log (db s) @ ((''BEGIN'', []), r) # rest)"
    if "block_last b \<or> 20 < size_Insert (headerInsert (with_blocks [b] s))"
  proof -
    from that a have e: "PostgresSink_write srv b s = submit srv (with_blocks [b] s)"
      by (auto simp: PostgresSink_write_def and_then_def)
    with submit_begins[of srv "with_blocks [b] s"] show ?thesis
      by (simp add: with_blocks_fields)
  qed
  have p4: "PostgresSink_write srv b s = (Inr (), with_blocks [b] s)"
    if "\<not> block_last b \<and> size_Insert (headerInsert (with_blocks [b] s)) \<le> 20"
    using that a by (auto simp: PostgresSink_write_def and_then_def)
  have "no_trigger srv bs s \<longrightarrow>
            writes srv bs s = (replicate (length bs) (Inr ()), with_blocks bs s)
            \<and> db (with_blocks bs s) = db s \<and> reported (with_blocks bs s) = reported s
            \<and> wf_sink (with_blocks bs s)
            \<and> size_Insert (metadataInsert s) \<le> size_Insert (metadataInsert (with_blocks bs s))
            \<and> size_Insert (headerInsert s) \<le> size_Insert (headerInsert (with_blocks bs s))
            \<and> size_Insert (extrinsicInsert s) \<le> size_Insert (extrinsicInsert (with_blocks bs s))
            \<and> size_Insert (callInsert s) \<le> size_Insert (callInsert (with_blocks bs s))
            \<and> size_Insert (eventInsert s) \<le> size_Insert (eventInsert (with_blocks bs s))
            \<and> size_Insert (warningInsert s) \<le> size_Insert (warningInsert (with_blocks bs s))"
    using p1 sz wf_with_blocks[OF assms, of bs] with_blocks_fields(1,2)[of bs s] by blast
  with p2 a p3 p4 wf_write[OF assms, of srv b] show ?thesis by blast
qed

theorem write_flush_policy_witness:
  "wf_sink sample_sink
   \<and> no_trigger accept_all (replicate 20 (sample_block False)) sample_sink
   \<and> writes accept_all (replicate 20 (sample_block False)) sample_sink
       = (replicate 20 (Inr ()), full_sink)
   \<and> db full_sink = empty_db
   \<and> size_Insert (headerInsert full_sink) = 20
   \<and> wf_sink full_sink
   \<and> \<not> block_last (sample_block False)
   \<and> size_Insert (headerInsert (with_blocks [sample_block False] full_sink)) = 21
   \<and> PostgresSink_write accept_all (sample_block False) full_sink
       = submit accept_all (with_blocks [sample_block False] full_sink)
   \<and> (\<exists>r rest. db_log (db (snd (PostgresSink_write accept_all (sample_block False) full_sink)))
          = ((''BEGIN'', []), r) # rest)
   \<and> size_Insert (headerInsert (with_blocks [sample_block False] sample_sink)) = 1
   \<and> PostgresSink_write accept_all (sample_block False) sample_sink
       = (Inr (), with_blocks [sample_block False] sample_sink)
   \<and> columns (headerInsert (snd (PostgresSink_write accept_all (sample_block False) sample_sink)))
       = [(''id'', [''id'']), (''height'', [''height'']), (''hash'', [''hash'']),
          (''parent_hash'', [''parent_hash'']), (''timestamp'', [''timestamp'']),
          (''spec_version'', [''spec_version''])]
   \<and> columns (eventInsert (snd (PostgresSink_write accept_all (sample_block False) sample_sink)))
       = [(''id'', [''id'', ''id'']), (''block_id'', [''block_id'', ''block_id'']),
          (''phase'', [''phase'', ''phase'']),
          (''index_in_block'', [''index_in_block'', ''index_in_block'']),
          (''name'', [''name'', ''name'']), (''extrinsic_id'', [''extrinsic_id'', ''extrinsic_id'']),
          (''call_id'', [''call_id'', ''call_id'']), (''args'', [''args'', ''args''])]
   \<and> columns (warningInsert (snd (PostgresSink_write accept_all (sample_block False) sample_sink)))
       = [(''block_id'', []), (''message'', [])]
   \<and> block_last (sample_block True)
   \<and> PostgresSink_write accept_all (sample_block True) sample_sink
       = submit accept_all (with_blocks [sample_block True] sample_sink)
   \<and> (\<exists>r rest. db_log (db (snd (PostgresSink_write accept_all (sample_block True) sample_sink)))
          = ((''BEGIN'', []), r) # rest)"
proof -
  let ?b = "sample_block False"
  let ?bs = "replicate 20 ?b"
  have w: "wf_sink sample_sink"
    unfolding sample_sink_def by (rule wf_new_PostgresSink)
  have wh: "well_formed (headerInsert sample_sink)"
    using w by (simp add: wf_sink_def buffers_def)
  have n: "no_trigger accept_all ?bs sample_sink"
    using w sample_header(1) by (rule no_trigger_count) (simp_all add: sample_header last_sample)
  note t = write_flush_policy[OF w, of accept_all ?bs "headerInsert sample_sink"
      "map block_header ?bs" ?b]
  from t n have r: "writes accept_all ?bs sample_sink = (replicate (length ?bs) (Inr ()), full_sink)"
    and wf: "wf_sink full_sink" and d0: "db full_sink = db sample_sink"
    unfolding full_sink_def by blast+
  from d0 have d: "db full_sink = empty_db" by (simp add: sample_header)
  have hf: "headerInsert full_sink = appended (map block_header ?bs) (headerInsert sample_sink)"
    by (simp add: full_sink_def with_blocks_def)
  from t wh sample_header(1) have "size_Insert (appended (map block_header ?bs) (headerInsert sample_sink))
      = size_Insert (headerInsert sample_sink) + length (map block_header ?bs)" by blast
  then have s20: "size_Insert (headerInsert full_sink) = 20"
    by (simp add: hf sample_header)
  note t1 = write_flush_policy[OF w, of accept_all "[]" "headerInsert sample_sink"
      "[block_header ?b]" ?b]
  have h1: "headerInsert (with_blocks [?b] sample_sink)
      = appended [block_header ?b] (headerInsert sample_sink)"
    by (simp add: with_blocks_def)
  from t1 wh sample_header(1) have "size_Insert (appended [block_header ?b] (headerInsert sample_sink))
      = size_Insert (headerInsert sample_sink) + length [block_header ?b]" by blast
  then have s1: "size_Insert (headerInsert (with_blocks [?b] sample_sink)) = 1"
    by (simp add: h1 sample_header)
  have nl: "\<not> block_last ?b" by (simp add: last_sample)
  from s1 have "size_Insert (headerInsert (with_blocks [?b] sample_sink)) \<le> 20" by simp
  with t1 nl have o: "PostgresSink_write accept_all ?b sample_sink
       = (Inr (), with_blocks [?b] sample_sink)" by blast
  from wf have whf: "well_formed (headerInsert full_sink)"
    by (simp add: wf_sink_def buffers_def)
  have cf: "columns (headerInsert full_sink) \<noteq> []"
    using sample_header(1) by (simp add: hf appended_fields)
  note u = write_flush_policy[OF wf, of accept_all "[]" "headerInsert full_sink"
      "[block_header ?b]" ?b]
  have h21: "headerInsert (with_blocks [?b] full_sink)
      = appended [block_header ?b] (headerInsert full_sink)"
    by (simp add: with_blocks_def)
  from u whf cf have "size_Insert (appended [block_header ?b] (headerInsert full_sink))
      = size_Insert (headerInsert full_sink) + length [block_header ?b]" by blast
  then have s21: "size_Insert (headerInsert (with_blocks [?b] full_sink)) = 21"
    by (simp add: h21 s20)
  then have "20 < size_Insert (headerInsert (with_blocks [?b] full_sink))" by simp
  with u have f: "PostgresSink_write accept_all ?b full_sink
       = submit accept_all (with_blocks [?b] full_sink)"
    "\<exists>r rest. db_log (db (snd (PostgresSink_write accept_all ?b full_sink)))
          = db_log (db full_sink) @ ((''BEGIN'', []), r) # rest"
    by blast+
  note v = write_flush_policy[OF w, of accept_all "[]" "headerInsert sample_sink" "[]"
      "sample_block True"]
  have la: "block_last (sample_block True)" by (simp add: last_sample)
  with v have l: "PostgresSink_write accept_all (sample_block True) sample_sink
       = submit accept_all (with_blocks [sample_block True] sample_sink)"
    "\<exists>r rest. db_log (db (snd (PostgresSink_write accept_all (sample_block True) sample_sink)))
          = db_log (db sample_sink) @ ((''BEGIN'', []), r) # rest"
    by blast+
  from o have c: "columns (headerInsert (snd (PostgresSink_write accept_all ?b sample_sink)))
       = [(''id'', [''id'']), (''height'', [''height'']), (''hash'', [''hash'']),
          (''parent_hash'', [''parent_hash'']), (''timestamp'', [''timestamp'']),
          (''spec_version'', [''spec_version''])]"
    "columns (eventInsert (snd (PostgresSink_write accept_all ?b sample_sink)))
       = [(''id'', [''id'', ''id'']), (''block_id'', [''block_id'', ''block_id'']),
          (''phase'', [''phase'', ''phase'']),
          (''index_in_block'', [''index_in_block'', ''index_in_block'']),
          (''name'', [''name'', ''name'']), (''extrinsic_id'', [''extrinsic_id'', ''extrinsic_id'']),
          (''call_id'', [''call_id'', ''call_id'']), (''args'', [''args'', ''args''])]"
    "columns (warningInsert (snd (PostgresSink_write accept_all ?b sample_sink)))
       = [(''block_id'', []), (''message'', [])]"
    by (simp_all add: sample_columns)
  from w n r d s20 wf nl s21 f s1 o c la l show ?thesis
    by (simp add: sample_header empty_db_def)
qed

section \<open>The streaming writer\<close>

lemma write_fields:
  "started (WritableSink_write tj b r1 r2 s) = Suc (started s)"
  "error (WritableSink_write tj b r1 r2 s) = error s"
  "listening (WritableSink_write tj b r1 r2 s) = listening s"
  "drainHandle (WritableSink_write tj b r1 r2 s) =
     (if error s = None \<and> \<not> r2 \<and> drainHandle s = None then Some (started s) else drainHandle s)"
  "settled (WritableSink_write tj b r1 r2 s) = settled s @
     (case error s of
        Some e \<Rightarrow> [(started s, Inl (Rejected e))]
      | None \<Rightarrow> if r2 then [(started s, Inr ())]
                else if drainHandle s \<noteq> None then [(started s, Inl AssertionError)] else [])"
  "written (WritableSink_write tj b r1 r2 s) = written s @
     (case error s of Some e \<Rightarrow> [] | None \<Rightarrow> [tj b, [CHR 0x0A]])"
  by (simp_all add: WritableSink_write_def Let_def settle_def drain_def write_report_def
      split: option.splits)

lemma onDrain_fields:
  "started (onDrain s) = started s"
  "error (onDrain s) = error s"
  "listening (onDrain s) = listening s"
  "drainHandle (onDrain s) = None"
  "settled (onDrain s) = settled s @ (case drainHandle s of None \<Rightarrow> [] | Some k \<Rightarrow> [(k, Inr ())])"
  "written (onDrain s) = written s"
  by (simp_all add: onDrain_def settle_def write_report_def split: option.splits)

lemma onError_fields:
  "started (onError e s) = started s"
  "error (onError e s) = Some e"
  "listening (onError e s) = False"
  "drainHandle (onError e s) = None"
  "settled (onError e s) = settled s @
     (case drainHandle s of None \<Rightarrow> [] | Some k \<Rightarrow> [(k, Inl (Rejected e))])"
  "written (onError e s) = written s"
  by (simp_all add: onError_def close_def settle_def Let_def split: option.splits)

lemma close_fields:
  "started (close s) = started s" "error (close s) = error s" "listening (close s) = False"
  "drainHandle (close s) = drainHandle s" "settled (close s) = settled s"
  "written (close s) = written s"
  by (simp_all add: close_def)

lemma set_waiting: "set (waiting s) = {k. k < started s \<and> k \<notin> fst ` set (settled s)}"
  by (auto simp: waiting_def)

lemma one_waiter_new: "one_waiter (new_WritableSink sp pr)"
  by (simp add: one_waiter_def new_WritableSink_def set_waiting)

lemma one_waiter_write: "one_waiter s \<Longrightarrow> one_waiter (WritableSink_write tj b r1 r2 s)"
  unfolding one_waiter_def set_waiting write_fields
  by (cases "error s"; cases "drainHandle s") (auto simp: less_Suc_eq)

lemma one_waiter_onDrain: "one_waiter s \<Longrightarrow> one_waiter (onDrain s)"
  unfolding one_waiter_def set_waiting onDrain_fields
  by (cases "drainHandle s") auto

lemma one_waiter_onError: "one_waiter s \<Longrightarrow> one_waiter (onError e s)"
  unfolding one_waiter_def set_waiting onError_fields
  by (cases "drainHandle s") auto

lemma one_waiter_close: "one_waiter s \<Longrightarrow> one_waiter (close s)"
  unfolding one_waiter_def set_waiting close_fields by simp

lemma one_waiter_step: "one_waiter s \<Longrightarrow> one_waiter (step tj ev s)"
  by (cases ev)
    (simp_all add: one_waiter_write one_waiter_onDrain one_waiter_onError one_waiter_close)

lemma one_waiter_run: "one_waiter s \<Longrightarrow> one_waiter (run tj evs s)"
  by (induction evs arbitrary: s) (simp_all add: one_waiter_step)


lemma map_upt_Suc_shift: "map f [0..<Suc n] = f 0 # map (\<lambda>i. f (Suc i)) [0..<n]"
  by (simp add: map_upt_Suc del: upt_Suc)

lemma broken_run:
  "error t = Some e \<Longrightarrow> \<not> listening t \<Longrightarrow>
     error (run tj evs t) = Some e \<and> \<not> listening (run tj evs t)
     \<and> written (run tj evs t) = written t
     \<and> drainHandle (run tj evs t) = drainHandle t
     \<and> settled (run tj evs t) = settled t
          @ map (\<lambda>i. (started t + i, Inl (Rejected e))) [0..<length (filter is_write evs)]"
proof (induction evs arbitrary: t)
  case Nil
  then show ?case by simp
next
  case (Cons ev evs)
  show ?case
  proof (cases ev)
    case (Write b r1 r2)
    let ?t' = "WritableSink_write tj b r1 r2 t"
    from Cons.prems have t': "error ?t' = Some e" "\<not> listening ?t'" "written ?t' = written t"
      "drainHandle ?t' = drainHandle t" "started ?t' = Suc (started t)"
      "settled ?t' = settled t @ [(started t, Inl (Rejected e))]"
      by (simp_all add: write_fields)
    from Cons.IH[OF t'(1,2)] t' Write show ?thesis
      by (simp add: map_upt_Suc_shift del: upt_Suc)
  next
    case Drain
    with Cons.IH[OF Cons.prems] Cons.prems show ?thesis by simp
  next
    case (Error err)
    with Cons.IH[OF Cons.prems] Cons.prems show ?thesis by simp
  next
    case Close
    from Cons.prems have "error (close t) = Some e" "\<not> listening (close t)"
      by (simp_all add: close_fields)
    from Cons.IH[OF this] Close show ?thesis by (simp add: close_fields)
  qed
qed

text \<open>
  C7.  When a listening sink gets an \<^verbatim>\<open>error\<close> event, the error is stored, and the
  call of \<open>write\<close> that was waiting for a drain, if there is one, is rejected with it.
  Whatever happens afterwards, the stored error stays the same, nothing more is passed
  to the stream, and every call of \<open>write\<close> is rejected with that error.
\<close>

theorem channel_error_is_cached:
  assumes "listening s"
  shows "error (step tj (Error e) s) = Some e
     \<and> (\<forall>k. drainHandle s = Some k \<longrightarrow>
           settled (step tj (Error e) s) = settled s @ [(k, Inl (Rejected e))])
     \<and> error (run tj evs (step tj (Error e) s)) = Some e
     \<and> written (run tj evs (step tj (Error e) s)) = written s
     \<and> settled (run tj evs (step tj (Error e) s)) = settled (step tj (Error e) s)
          @ map (\<lambda>i. (started s + i, Inl (Rejected e))) [0..<length (filter is_write evs)]"
proof -
  let ?t = "step tj (Error e) s"
  from assms have t: "?t = onError e s" by simp
  have "error ?t = Some e" "\<not> listening ?t" using assms by (simp_all add: onError_fields)
  from broken_run[OF this, of tj evs] assms show ?thesis
    by (simp add: onError_fields)
qed

theorem channel_error_is_cached_witness:
  "listening (step decimal (Write 0 True False) (new_WritableSink False False :: nat WritableSink))
   \<and> drainHandle (step decimal (Write 0 True False) (new_WritableSink False False :: nat WritableSink))
       = Some 0
   \<and> settled (run decimal [Write 0 True False, Error 7, Write 1 True True, Drain, Error 8,
          Write 2 True True] (new_WritableSink False False))
       = [(0, Inl (Rejected (7::nat))), (1, Inl (Rejected 7)), (2, Inl (Rejected 7))]
   \<and> written (run decimal [Write 0 True False, Error 7, Write 1 True True, Drain, Error 8,
          Write 2 True True] (new_WritableSink False False :: nat WritableSink))
       = [''0'', [CHR 0x0A]]"
proof -
  let ?s = "step decimal (Write 0 True False) (new_WritableSink False False :: nat WritableSink)"
  have f: "listening ?s" "drainHandle ?s = Some 0" "settled ?s = []" "started ?s = 1"
    "written ?s = [''0'', [CHR 0x0A]]"
    by (simp_all add: write_fields new_WritableSink_def)
  let ?evs = "[Write 1 True True, Drain, Error 8, Write 2 True True] :: (nat, nat) event list"
  have r: "settled (run decimal ?evs (step decimal (Error 7) ?s))
       = [(0, Inl (Rejected (7::nat))), (1, Inl (Rejected 7)), (2, Inl (Rejected 7))]"
    "written (run decimal ?evs (step decimal (Error 7) ?s)) = [''0'', [CHR 0x0A]]"
    by (simp_all add: write_fields onError_fields onDrain_fields new_WritableSink_def)
  from channel_error_is_cached[OF f(1), of decimal 7 ?evs] f r
  show ?thesis by simp
qed

lemma length_waiting: "one_waiter s \<Longrightarrow> length (waiting s) \<le> 1"
proof -
  assume o: "one_waiter s"
  have "distinct (waiting s)" by (simp add: waiting_def)
  then have "length (waiting s) = card (set (waiting s))" by (simp add: distinct_card)
  also have "\<dots> = card (set_option (drainHandle s))" using o by (simp add: one_waiter_def)
  also have "\<dots> \<le> 1" by (cases "drainHandle s") simp_all
  finally show ?thesis .
qed

lemma sequential_no_assertion:
  "one_waiter s \<Longrightarrow> \<forall>(k, r) \<in> set (settled s). r \<noteq> Inl AssertionError \<Longrightarrow> sequential tj evs s \<Longrightarrow>
     \<forall>(k, r) \<in> set (settled (run tj evs s)). r \<noteq> Inl AssertionError"
proof (induction evs arbitrary: s)
  case Nil
  then show ?case by simp
next
  case (Cons ev evs)
  have o: "one_waiter (step tj ev s)" using Cons.prems(1) by (rule one_waiter_step)
  have q: "sequential tj evs (step tj ev s)" using Cons.prems(3) by simp
  have "\<forall>(k, r) \<in> set (settled (step tj ev s)). r \<noteq> Inl AssertionError"
  proof (cases ev)
    case (Write b r1 r2)
    with Cons.prems(3) have "waiting s = []" by simp
    with Cons.prems(1) have "drainHandle s = None"
      by (cases "drainHandle s") (simp_all add: one_waiter_def)
    with Cons.prems(2) Write show ?thesis
      by (auto simp: write_fields split: option.splits)
  next
    case Drain
    with Cons.prems(2) show ?thesis by (auto simp: onDrain_fields split: option.splits)
  next
    case (Error err)
    with Cons.prems(2) show ?thesis by (auto simp: onError_fields split: option.splits)
  next
    case Close
    with Cons.prems(2) show ?thesis by (simp add: close_fields)
  qed
  from Cons.IH[OF o this q] show ?case by simp
qed

text \<open>
  C8.  After any sequence of events on a new sink at most one call of \<open>write\<close> is
  waiting, the one \<open>drainHandle\<close> names.  A \<open>write\<close> that has to wait while
  \<open>drainHandle\<close> is set (and no error is stored) ends with an \<open>AssertionError\<close>, which
  is not a rejection by the stream, and leaves the handle as it is.  In a sequential
  run no call of \<open>write\<close> ever ends with an \<open>AssertionError\<close>.
\<close>

theorem single_drain_waiter:
  "length (waiting (run tj evs (new_WritableSink sp pr))) \<le> 1
   \<and> set (waiting (run tj evs (new_WritableSink sp pr)))
       = set_option (drainHandle (run tj evs (new_WritableSink sp pr)))
   \<and> (error s = None \<and> drainHandle s \<noteq> None \<longrightarrow>
        settled (step tj (Write b r1 False) s) = settled s @ [(started s, Inl AssertionError)]
        \<and> drainHandle (step tj (Write b r1 False) s) = drainHandle s)
   \<and> (sequential tj evs (new_WritableSink sp pr) \<longrightarrow>
        (\<forall>(k, r) \<in> set (settled (run tj evs (new_WritableSink sp pr))). r \<noteq> Inl AssertionError))"
proof -
  let ?s0 = "new_WritableSink sp pr :: 'a WritableSink"
  have o: "one_waiter (run tj evs ?s0)" by (rule one_waiter_run) (rule one_waiter_new)
  have "settled ?s0 = []" by (simp add: new_WritableSink_def)
  then have "sequential tj evs ?s0 \<longrightarrow>
      (\<forall>(k, r) \<in> set (settled (run tj evs ?s0)). r \<noteq> Inl AssertionError)"
    using sequential_no_assertion[OF one_waiter_new, of sp pr tj evs] by simp
  moreover have "error s = None \<and> drainHandle s \<noteq> None \<longrightarrow>
        settled (step tj (Write b r1 False) s) = settled s @ [(started s, Inl AssertionError)]
        \<and> drainHandle (step tj (Write b r1 False) s) = drainHandle s"
    by (simp add: write_fields)
  ultimately show ?thesis using o length_waiting[OF o] by (simp add: one_waiter_def)
qed

theorem single_drain_waiter_witness:
  "sequential decimal [Write 0 True False, Drain, Write 1 True False]
     (new_WritableSink False False :: nat WritableSink)
   \<and> settled (run decimal [Write 0 True False, Drain, Write 1 True False]
       (new_WritableSink False False :: nat WritableSink)) = [(0, Inr ())]
   \<and> waiting (run decimal [Write 0 True False, Drain, Write 1 True False]
       (new_WritableSink False False :: nat WritableSink)) = [1]
   \<and> error (step decimal (Write 0 True False) (new_WritableSink False False :: nat WritableSink)) = None
   \<and> drainHandle (step decimal (Write 0 True False) (new_WritableSink False False :: nat WritableSink))
        \<noteq> None
   \<and> settled (run decimal [Write 0 True False, Write 1 True False]
       (new_WritableSink False False :: nat WritableSink)) = [(1, Inl AssertionError)]
   \<and> \<not> sequential decimal [Write 0 True False, Write 1 True False]
       (new_WritableSink False False :: nat WritableSink)"
proof -
  let ?s0 = "new_WritableSink False False :: nat WritableSink"
  let ?s1 = "step decimal (Write 0 True False) ?s0"
  let ?evs = "[Write 0 True False, Drain, Write 1 True False] :: (nat, nat) event list"
  have f: "error ?s1 = None" "drainHandle ?s1 \<noteq> None" "settled ?s1 = []" "started ?s1 = 1"
    "waiting ?s1 = [0]"
    by (simp_all add: write_fields new_WritableSink_def waiting_def)
  have q: "sequential decimal ?evs ?s0"
    by (simp add: write_fields onDrain_fields new_WritableSink_def waiting_def)
  have r: "settled (run decimal ?evs ?s0) = [(0, Inr ())]"
    "waiting (run decimal ?evs ?s0) = [1]"
    by (simp_all add: write_fields onDrain_fields new_WritableSink_def waiting_def)
  have n: "\<not> sequential decimal [Write 0 True False, Write 1 True False] ?s0"
    using f(5) by simp
  from single_drain_waiter[of decimal ?evs False False ?s1 1 True] f q r n
  show ?thesis by simp
qed

end
